theory Spec2Isabelle
  imports Complex_Main
begin

section \<open>CardSwap: slot geometry\<close>

text \<open>
  The object returned by \<^verbatim>\<open>makeSlot(i, distX, distY, total)\<close>. JavaScript numbers are
  taken as exact reals; the index and the card count are array indices and lengths.
\<close>

record slot =
  slot_x :: real
  slot_y :: real
  slot_z :: real
  zIndex :: int

definition makeSlot :: "nat \<Rightarrow> real \<Rightarrow> real \<Rightarrow> nat \<Rightarrow> slot" where
  "makeSlot i distX distY tot =
     \<lparr> slot_x = real i * distX,
       slot_y = - real i * distY,
       slot_z = - real i * distX * 1.5,
       zIndex = int tot - int i \<rparr>"

section \<open>CardSwap: props and animation configuration\<close>

text \<open>
  The props of the component that the animation engine reads. \<open>delay\<close> is in milliseconds,
  as \<^verbatim>\<open>setInterval\<close> takes it.
\<close>

record props =
  cardDistance :: real
  verticalDistance :: real
  delay :: nat
  pauseOnHover :: bool
  easing :: string

text \<open>The default values of these props in the component's parameter list.\<close>

definition defaultProps :: props where
  "defaultProps =
     \<lparr> cardDistance = 60, verticalDistance = 70, delay = 5000,
       pauseOnHover = False, easing = ''elastic'' \<rparr>"

text \<open>
  The \<^verbatim>\<open>config\<close> object. Durations are kept in milliseconds (the source writes seconds:
  2 and 0.8) and the two fractions in percent (the source writes 0.9, 0.05, 0.45 and 0.2),
  so that every time of a timeline is a whole number of milliseconds.
\<close>

record anim_config =
  ease :: string
  durDrop :: nat
  durMove :: nat
  durReturn :: nat
  promoteOverlap :: nat
  returnDelay :: nat

definition config :: "props \<Rightarrow> anim_config" where
  "config P =
     (if easing P = ''elastic''
      then \<lparr> ease = ''elastic.out(0.6,0.9)'', durDrop = 2000, durMove = 2000,
             durReturn = 2000, promoteOverlap = 90, returnDelay = 5 \<rparr>
      else \<lparr> ease = ''power1.inOut'', durDrop = 800, durMove = 800,
             durReturn = 800, promoteOverlap = 45, returnDelay = 20 \<rparr>)"

section \<open>CardSwap: timelines\<close>

text \<open>
  What \<^verbatim>\<open>swap\<close> puts on a GSAP timeline. Cards are named by their index in \<^verbatim>\<open>refs\<close>.
  \<open>DropBy\<close> is the tween \<^verbatim>\<open>y: '+=500'\<close>, \<open>MoveTo\<close> a tween to a slot, \<open>SetZIndex\<close> a
  \<^verbatim>\<open>set\<close> of the z-index, \<open>SetFront\<close> the callback that writes \<^verbatim>\<open>data-is-front\<close>, and
  \<open>Commit\<close> the last callback, \<^verbatim>\<open>order.current = [...rest, front]\<close>, with the list it
  has captured. The colour tweens of the light theme are left out.
\<close>

datatype action =
    DropBy nat real
  | SetZIndex nat int
  | MoveTo nat slot
  | SetFront nat bool
  | Commit "nat list"

text \<open>A child of a timeline: start time, duration (0 for a callback or a set), action.\<close>

type_synonym entry = "nat \<times> nat \<times> action"

record timeline =
  children :: "entry list"
  playhead :: nat
  paused :: bool

text \<open>The end of a timeline: the latest end of its children. A position given without
  a label (\<^verbatim>\<open>tl.to(el, vars)\<close>, \<^verbatim>\<open>tl.call(f)\<close>) is this time.\<close>

definition endTime :: "entry list \<Rightarrow> nat" where
  "endTime es = fold (\<lambda>(st, d, a) m. max m (st + d)) es 0"

definition duration :: "timeline \<Rightarrow> nat" where
  "duration tln = endTime (children tln)"

section \<open>CardSwap: the engine state\<close>

text \<open>
  \<open>order\<close> is \<^verbatim>\<open>order.current\<close>; \<open>refs ! i\<close> tells whether \<^verbatim>\<open>refs[i].current\<close> is a
  DOM node; \<open>timelines\<close> holds every timeline \<^verbatim>\<open>swap\<close> has created, the newest first,
  so that \<^verbatim>\<open>tlRef.current\<close> is its head (and null when it is empty); \<open>timers\<close> are the
  armed \<^verbatim>\<open>setInterval\<close> timers, each with its id and the milliseconds left until it
  fires next; \<open>intervalRef\<close> is \<^verbatim>\<open>intervalRef.current\<close>.
\<close>

datatype error = TypeError

record engine =
  order :: "nat list"
  refs :: "bool list"
  timelines :: "timeline list"
  timers :: "(nat \<times> nat) list"
  intervalRef :: "nat option"
  nextId :: nat

section \<open>CardSwap: swap\<close>

text \<open>
  The body of \<^verbatim>\<open>rest.forEach((idx, i) => ...)\<close>: a card without a DOM node is skipped;
  an index outside \<^verbatim>\<open>refs\<close> makes \<^verbatim>\<open>refs[idx].current\<close> throw. The cascade step
  \<^verbatim>\<open>i * 0.15\<close> seconds is \<open>i * 150\<close> milliseconds.
\<close>

fun promoteEach ::
  "props \<Rightarrow> anim_config \<Rightarrow> bool list \<Rightarrow> nat \<Rightarrow> nat list \<Rightarrow> nat \<Rightarrow> error + entry list" where
  "promoteEach P C rs promote [] i = Inr []"
| "promoteEach P C rs promote (idx # rest) i =
     (if length rs \<le> idx then Inl TypeError
      else case promoteEach P C rs promote rest (Suc i) of
             Inl e \<Rightarrow> Inl e
           | Inr es \<Rightarrow>
               (if \<not> rs ! idx then Inr es
                else let slot = makeSlot i (cardDistance P) (verticalDistance P) (length rs)
                     in Inr ([(promote, 0, SetZIndex idx (zIndex slot)),
                              (promote + i * 150, durMove C, MoveTo idx slot),
                              (promote, 0, SetFront idx (i = 0))] @ es)))"

text \<open>
  \<^verbatim>\<open>swap\<close>. The two guards return without a change. Otherwise the timeline is built in
  the order of the source: the DROP tween at time 0; the label \<^verbatim>\<open>promote\<close>, placed
  \<^verbatim>\<open>durDrop * promoteOverlap\<close> before the end of the timeline so far; the entries of the
  remaining cards; the label \<^verbatim>\<open>return\<close>, \<^verbatim>\<open>durMove * returnDelay\<close> after \<^verbatim>\<open>promote\<close>, with
  the three entries of the dropped card; and, at the end of all of these, the callback
  that writes the order. The new timeline becomes \<^verbatim>\<open>tlRef.current\<close> and starts to play.
\<close>

definition swap :: "props \<Rightarrow> engine \<Rightarrow> error + engine" where
  "swap P s =
     (if length (order s) < 2 then Inr s
      else case order s of
             [] \<Rightarrow> Inr s
           | front # rest \<Rightarrow>
               (if length (refs s) \<le> front then Inl TypeError
                else if \<not> refs s ! front then Inr s
                else
                  (let C = config P;
                       dropped = [(0, durDrop C, DropBy front 500)];
                       promote = endTime dropped - durDrop C * promoteOverlap C div 100
                   in (case promoteEach P C (refs s) promote rest 0 of
                         Inl e \<Rightarrow> Inl e
                       | Inr promoted \<Rightarrow>
                           (let backSlot = makeSlot (length (refs s) - 1) (cardDistance P)
                                             (verticalDistance P) (length (refs s));
                                return = promote + durMove C * returnDelay C div 100;
                                es = dropped @ promoted @
                                     [(return, 0, SetZIndex front (zIndex backSlot)),
                                      (return, durReturn C, MoveTo front backSlot),
                                      (return, 0, SetFront front False)];
                                tln = \<lparr> children = es @ [(endTime es, 0, Commit (rest @ [front]))],
                                        playhead = 0, paused = False \<rparr>
                            in Inr (s\<lparr>timelines := tln # timelines s\<rparr>))))))"

text \<open>\<open>n\<close> calls of \<^verbatim>\<open>swap\<close>, one after the other.\<close>

fun swaps :: "props \<Rightarrow> nat \<Rightarrow> engine \<Rightarrow> error + engine" where
  "swaps P 0 s = Inr s"
| "swaps P (Suc n) s = (case swap P s of Inl e \<Rightarrow> Inl e | Inr s' \<Rightarrow> swaps P n s')"

section \<open>CardSwap: timers, hover, mounting\<close>

text \<open>\<^verbatim>\<open>intervalRef.current = window.setInterval(swap, ms)\<close>.\<close>

definition setInterval :: "nat \<Rightarrow> engine \<Rightarrow> engine" where
  "setInterval ms s =
     s\<lparr>timers := (nextId s, ms) # timers s,
       intervalRef := Some (nextId s),
       nextId := Suc (nextId s)\<rparr>"

text \<open>\<^verbatim>\<open>clearInterval(h)\<close>; an undefined handle (\<open>None\<close>) clears nothing.\<close>

definition clearInterval :: "nat option \<Rightarrow> engine \<Rightarrow> engine" where
  "clearInterval h s = s\<lparr>timers := filter (\<lambda>(i, r). Some i \<noteq> h) (timers s)\<rparr>"

definition pause :: "engine \<Rightarrow> engine" where
  "pause s =
     clearInterval (intervalRef s)
       (s\<lparr>timelines := (case timelines s of [] \<Rightarrow> [] | tln # tls \<Rightarrow> tln\<lparr>paused := True\<rparr> # tls)\<rparr>)"

definition resume :: "props \<Rightarrow> engine \<Rightarrow> engine" where
  "resume P s =
     setInterval (delay P)
       (s\<lparr>timelines := (case timelines s of [] \<Rightarrow> [] | tln # tls \<Rightarrow> tln\<lparr>paused := False\<rparr> # tls)\<rparr>)"

text \<open>The refs of a freshly rendered component: \<open>handles ! i\<close> tells whether child \<open>i\<close>
  has attached a DOM node to its ref.\<close>

definition initial :: "bool list \<Rightarrow> engine" where
  "initial handles =
     \<lparr> order = [0..<length handles], refs = handles, timelines = [], timers = [],
       intervalRef = None, nextId = 1 \<rparr>"

text \<open>The effect that runs on mount: the first \<^verbatim>\<open>swap()\<close>, then the repeating timer.
  (The placing of the cards at their first slots writes styles only.)\<close>

definition mount :: "props \<Rightarrow> bool list \<Rightarrow> error + engine" where
  "mount P handles =
     (case swap P (initial handles) of
        Inl e \<Rightarrow> Inl e
      | Inr s \<Rightarrow> Inr (setInterval (delay P) s))"

section \<open>CardSwap: the passing of time\<close>

text \<open>
  Time is counted in whole milliseconds, and the browser's timers and GSAP's ticker are
  taken as exact. In one millisecond, a timeline that is neither paused nor at its end
  moves its playhead by one and runs the callbacks it reaches (\<open>due\<close>); then every timer
  counts down, and a timer that reaches zero calls \<^verbatim>\<open>swap\<close> and starts again from
  \<open>delay\<close>. Timelines are served oldest first. Of the callbacks only \<open>Commit\<close> touches
  the state of the engine (\<open>perform\<close>); the others write styles and attributes of DOM
  nodes. A timeline made by \<^verbatim>\<open>swap\<close> keeps playing when a newer one replaces it in
  \<^verbatim>\<open>tlRef.current\<close>: nothing in the source stops it.
\<close>

definition playing :: "timeline \<Rightarrow> bool" where
  "playing tln \<longleftrightarrow> \<not> paused tln \<and> playhead tln < duration tln"

definition due :: "timeline \<Rightarrow> action list" where
  "due tln =
     (if playing tln
      then [a. (st, d, a) \<leftarrow> children tln, d = 0 \<and> st = Suc (playhead tln)]
      else [])"

fun perform :: "action \<Rightarrow> nat list \<Rightarrow> nat list" where
  "perform (Commit new) ord = new"
| "perform a ord = ord"

definition stepTimeline :: "timeline \<Rightarrow> timeline" where
  "stepTimeline tln = (if playing tln then tln\<lparr>playhead := Suc (playhead tln)\<rparr> else tln)"

definition tick :: "props \<Rightarrow> engine \<Rightarrow> error + engine" where
  "tick P s =
     (let fired = concat (map due (rev (timelines s)));
          s1 = s\<lparr>order := fold perform fired (order s),
                 timelines := map stepTimeline (timelines s)\<rparr>;
          n = length (filter (\<lambda>(i, r). r \<le> 1) (timers s1));
          s2 = s1\<lparr>timers := map (\<lambda>(i, r). (i, if r \<le> 1 then delay P else r - 1)) (timers s1)\<rparr>
      in swaps P n s2)"

fun advance :: "props \<Rightarrow> nat \<Rightarrow> engine \<Rightarrow> error + engine" where
  "advance P 0 s = Inr s"
| "advance P (Suc n) s = (case tick P s of Inl e \<Rightarrow> Inl e | Inr s' \<Rightarrow> advance P n s')"

text \<open>What can happen to a mounted component: time passes, the pointer enters or leaves
  the container, a card's ref gains or loses its DOM node.\<close>

datatype event = Elapse nat | MouseEnter | MouseLeave | SetHandle nat bool

fun handle :: "props \<Rightarrow> event \<Rightarrow> engine \<Rightarrow> error + engine" where
  "handle P (Elapse n) s = advance P n s"
| "handle P MouseEnter s = Inr (if pauseOnHover P then pause s else s)"
| "handle P MouseLeave s = Inr (if pauseOnHover P then resume P s else s)"
| "handle P (SetHandle i b) s = Inr (s\<lparr>refs := (refs s)[i := b]\<rparr>)"

fun run :: "props \<Rightarrow> event list \<Rightarrow> engine \<Rightarrow> error + engine" where
  "run P [] s = Inr s"
| "run P (ev # evs) s = (case handle P ev s of Inl e \<Rightarrow> Inl e | Inr s' \<Rightarrow> run P evs s')"

definition orderOf :: "error + engine \<Rightarrow> nat list option" where
  "orderOf r = (case r of Inl e \<Rightarrow> None | Inr s \<Rightarrow> Some (order s))"

section \<open>CardSwap: clicks\<close>

text \<open>
  A child of the component is a React element (which may carry an \<^verbatim>\<open>onClick\<close> of its
  own) or something else (a string, a number), which is rendered as it is. A click on a
  rendered element runs the calls listed by \<open>onClick\<close>.
\<close>

datatype child = Element bool | NonElement

datatype call = ChildOnClick | OnCardClick nat

definition onClick :: "bool \<Rightarrow> bool \<Rightarrow> nat \<Rightarrow> call list" where
  "onClick childHandler onCardClick i =
     (if childHandler then [ChildOnClick] else []) @ (if onCardClick then [OnCardClick i] else [])"

definition rendered :: "child list \<Rightarrow> bool \<Rightarrow> call list option list" where
  "rendered childArr onCardClick =
     map (\<lambda>(c, i). case c of Element h \<Rightarrow> Some (onClick h onCardClick i) | NonElement \<Rightarrow> None)
       (zip childArr [0..<length childArr])"

text \<open>The display position of the specification: where a card identifier stands in the
  front-to-back order.\<close>

fun displayPosition :: "nat \<Rightarrow> nat list \<Rightarrow> nat option" where
  "displayPosition c [] = None"
| "displayPosition c (x # xs) = (if x = c then Some 0 else map_option Suc (displayPosition c xs))"

section \<open>AboutSection: the active card\<close>

text \<open>
  The three observed cards and their \<^verbatim>\<open>data-card-index\<close> attributes. \<open>parseInt\<close> reads
  the leading decimal digits of a string and gives \<open>None\<close> (NaN) when there are none;
  white space, signs and the hexadecimal prefix do not occur in the attributes.
\<close>

datatype cardRef = card0Ref | card1Ref | card2Ref

fun data_card_index :: "cardRef \<Rightarrow> string" where
  "data_card_index card0Ref = ''0''"
| "data_card_index card1Ref = ''1''"
| "data_card_index card2Ref = ''2''"

definition isDigit :: "char \<Rightarrow> bool" where
  "isDigit c \<longleftrightarrow> 48 \<le> (of_char c :: nat) \<and> (of_char c :: nat) \<le> 57"

definition parseInt :: "string \<Rightarrow> nat option" where
  "parseInt str =
     (case takeWhile isDigit str of
        [] \<Rightarrow> None
      | ds \<Rightarrow> Some (fold (\<lambda>c n. 10 * n + (of_char c - 48)) ds 0))"

record observerEntry =
  isIntersecting :: bool
  target :: cardRef

text \<open>The observer's callback, \<^verbatim>\<open>entries.forEach(...)\<close>, on the state \<^verbatim>\<open>activeCard\<close>
  (\<open>None\<close> stands for NaN). The state starts as \<^verbatim>\<open>useState(0)\<close>.\<close>

definition activeCardInit :: "nat option" where
  "activeCardInit = Some 0"

fun observerCallback :: "observerEntry list \<Rightarrow> nat option \<Rightarrow> nat option" where
  "observerCallback [] activeCard = activeCard"
| "observerCallback (e # entries) activeCard =
     observerCallback entries
       (if isIntersecting e then parseInt (data_card_index (target e)) else activeCard)"

section \<open>Notions used by the properties\<close>

text \<open>The card an action animates, and the list a \<open>Commit\<close> writes to the order.\<close>

fun animated :: "action \<Rightarrow> nat option" where
  "animated (DropBy c dy) = Some c"
| "animated (SetZIndex c zi) = Some c"
| "animated (MoveTo c sl) = Some c"
| "animated (SetFront c b) = Some c"
| "animated (Commit new) = None"

fun payload :: "action \<Rightarrow> nat list option" where
  "payload (Commit new) = Some new"
| "payload a = None"

definition cards :: "timeline \<Rightarrow> nat set" where
  "cards tln = set (List.map_filter (\<lambda>(st, d, a). animated a) (children tln))"

definition commits :: "timeline \<Rightarrow> nat list list" where
  "commits tln = List.map_filter (\<lambda>(st, d, a). payload a) (children tln)"

text \<open>A full permutation of \<open>[0..n-1]\<close>: length \<open>n\<close>, no duplicates, no gaps.\<close>

definition isPermutation :: "nat \<Rightarrow> nat list \<Rightarrow> bool" where
  "isPermutation n xs \<longleftrightarrow> length xs = n \<and> distinct xs \<and> set xs = {0..<n}"

text \<open>A consistent state: the order is a full permutation of the card identifiers, and
  so is every list that a timeline still has to write to it.\<close>

definition consistent :: "engine \<Rightarrow> bool" where
  "consistent s \<longleftrightarrow>
     isPermutation (length (refs s)) (order s) \<and>
     (\<forall>tln\<in>set (timelines s). \<forall>new\<in>set (commits tln). isPermutation (length (refs s)) new)"

text \<open>The rotation cycles that have completed: the timelines that have played to their
  end.\<close>

definition completed :: "engine \<Rightarrow> nat" where
  "completed s = length (filter (\<lambda>tln. duration tln \<le> playhead tln) (timelines s))"

text \<open>The state \<open>t\<close> milliseconds after mounting, and the length of the first cycle's
  timeline.\<close>

definition stateAt :: "props \<Rightarrow> bool list \<Rightarrow> nat \<Rightarrow> error + engine" where
  "stateAt P handles t = (case mount P handles of Inl e \<Rightarrow> Inl e | Inr s \<Rightarrow> advance P t s)"

definition cycleTime :: "props \<Rightarrow> bool list \<Rightarrow> nat" where
  "cycleTime P handles =
     (case mount P handles of
        Inl e \<Rightarrow> 0
      | Inr s \<Rightarrow> (case timelines s of [] \<Rightarrow> 0 | tln # tls \<Rightarrow> duration tln))"

text \<open>A settled state: no timeline but the current one is still playing, and no timer
  is armed but the one \<open>intervalRef\<close> holds.\<close>

definition settled :: "engine \<Rightarrow> bool" where
  "settled s \<longleftrightarrow>
     (\<forall>tln\<in>set (drop 1 (timelines s)). \<not> playing tln) \<and>
     (\<forall>(i, r)\<in>set (timers s). intervalRef s = Some i)"

text \<open>\<open>n\<close> milliseconds on a timeline that does not reach its end within them.\<close>

definition elapse :: "nat \<Rightarrow> timeline \<Rightarrow> timeline" where
  "elapse n tln = (if playing tln then tln\<lparr>playhead := playhead tln + n\<rparr> else tln)"

text \<open>The same after any course of events, and what the properties read off a result:
  the order and the number of completed cycles.\<close>

definition mounted :: "props \<Rightarrow> bool list \<Rightarrow> event list \<Rightarrow> error + engine" where
  "mounted P handles evs = (case mount P handles of Inl e \<Rightarrow> Inl e | Inr s \<Rightarrow> run P evs s)"

definition outcome :: "error + engine \<Rightarrow> (nat list \<times> nat) option" where
  "outcome r = (case r of Inl e \<Rightarrow> None | Inr s \<Rightarrow> Some (order s, completed s))"

text \<open>
  The state \<open>d\<close> milliseconds after the timer (or the mount) has started cycle \<open>k + 1\<close>,
  in a run whose cycles do not overlap: every card has its DOM node, one timer is armed
  and fires \<open>delay - d\<close> milliseconds from now, the \<open>k\<close> older timelines have played to
  their end, and the current one, which will write the identity rotated by \<open>k + 1\<close>, has
  its playhead at \<open>d\<close> or at its end.
\<close>

definition inCycle :: "props \<Rightarrow> nat \<Rightarrow> nat \<Rightarrow> engine \<Rightarrow> bool" where
  "inCycle P k d s \<longleftrightarrow>
     (\<forall>h\<in>set (refs s). h) \<and> d < delay P \<and>
     (\<exists>i. timers s = [(i, delay P - d)]) \<and>
     (\<exists>tln tls es.
        timelines s = tln # tls \<and> length tls = k \<and>
        (\<forall>t\<in>set tls. duration t \<le> playhead t) \<and>
        children tln = es @ [(cycleTime P (refs s), 0,
                               Commit (rotate (Suc k) [0..<length (refs s)]))] \<and>
        (\<forall>e\<in>set es. payload (snd (snd e)) = None) \<and>
        endTime es = cycleTime P (refs s) \<and>
        playhead tln = min d (cycleTime P (refs s)) \<and> \<not> paused tln) \<and>
     order s = rotate (if d < cycleTime P (refs s) then k else Suc k) [0..<length (refs s)]"

text \<open>
  The state \<open>d\<close> milliseconds after the timer (or the mount) has last called \<^verbatim>\<open>swap\<close>,
  in a run whose cycles do not overlap, whatever DOM nodes are missing: one timer is
  armed and fires \<open>delay - d\<close> milliseconds from now; every timeline is one that
  \<^verbatim>\<open>swap\<close> has made, not paused and no longer than a cycle in which every card has its
  DOM node; all but the newest have played to their end, and the newest has done so too
  or has its playhead at \<open>d\<close> and will write the present order rotated by one; and the
  order is the identity rotated by the number of completed cycles.
\<close>

definition inRun :: "props \<Rightarrow> nat \<Rightarrow> engine \<Rightarrow> bool" where
  "inRun P d s \<longleftrightarrow>
     d < delay P \<and>
     (\<exists>i. timers s = [(i, delay P - d)]) \<and>
     (\<forall>t\<in>set (timelines s). \<not> paused t \<and>
        (\<exists>es new. children t = es @ [(endTime es, 0, Commit new)] \<and>
           (\<forall>e\<in>set es. payload (snd (snd e)) = None) \<and>
           0 < endTime es \<and>
           endTime es \<le> cycleTime P (replicate (length (refs s)) True))) \<and>
     (\<forall>t\<in>set (drop 1 (timelines s)). duration t \<le> playhead t) \<and>
     (case timelines s of
        [] \<Rightarrow> True
      | t # ts \<Rightarrow> duration t \<le> playhead t \<or>
                 (playhead t = d \<and> commits t = [rotate1 (order s)])) \<and>
     order s = rotate (completed s) [0..<length (refs s)]"

section \<open>Slot geometry: the formulas\<close>

text \<open>
  C2. \<open>makeSlot\<close> is a total function of the position and the configuration: the
  horizontal offset is \<open>i * distX\<close>, the vertical offset \<open>- i * distY\<close>, the depth offset
  \<open>- i * distX * 1.5\<close> and the stacking order \<open>total - i\<close>, which is strictly decreasing
  in the position, so the front card (position 0) has the highest one.
\<close>

theorem makeSlot_formulas:
  "slot_x (makeSlot i dx dy tot) = real i * dx \<and>
   slot_y (makeSlot i dx dy tot) = - real i * dy \<and>
   slot_z (makeSlot i dx dy tot) = - real i * dx * 1.5 \<and>
   zIndex (makeSlot i dx dy tot) = int tot - int i \<and>
   (\<forall>j. i < j \<longrightarrow> zIndex (makeSlot j dx dy tot) < zIndex (makeSlot i dx dy tot))"
  by (simp add: makeSlot_def)

theorem makeSlot_formulas_witness:
  "slot_x (makeSlot 2 60 70 3) = 120 \<and> slot_y (makeSlot 2 60 70 3) = - 140 \<and>
   slot_z (makeSlot 2 60 70 3) = - 180 \<and> zIndex (makeSlot 2 60 70 3) = 1 \<and>
   zIndex (makeSlot 2 60 70 3) < zIndex (makeSlot 1 60 70 3)"
  using makeSlot_formulas [of 1 60 70 3] makeSlot_formulas [of 2 60 70 3]
  by simp

section \<open>swap: the guards\<close>

lemma swap_short: "length (order s) < 2 \<Longrightarrow> swap P s = Inr s"
  by (simp add: swap_def)

text \<open>
  C7. With fewer than two cards, any number of calls of \<open>swap\<close> leaves the whole state as
  it is: the order is unchanged and no timeline is created.
\<close>

theorem swaps_fewer_than_two_cards:
  "length (order s) < 2 \<Longrightarrow> swaps P k s = Inr s"
  by (induction k) (simp_all add: swap_short)

theorem swaps_fewer_than_two_cards_witness:
  "length (order (initial [True])) < 2 \<and>
   swaps defaultProps 7 (initial [True]) = Inr (initial [True]) \<and>
   swaps defaultProps 7 (initial []) = Inr (initial [])"
  using swaps_fewer_than_two_cards [of "initial [True]" defaultProps 7]
        swaps_fewer_than_two_cards [of "initial []" defaultProps 7]
  by (simp add: initial_def)

text \<open>
  C10. When the front card has no DOM node, \<open>swap\<close> returns at its second guard: the
  state is exactly the one it was given, so no timeline is created for any card and no
  update of the order is registered.
\<close>

theorem swap_front_handle_absent:
  "order s = front # rest \<Longrightarrow> front < length (refs s) \<Longrightarrow> \<not> refs s ! front \<Longrightarrow>
   swap P s = Inr s"
  by (simp add: swap_def)

theorem swap_front_handle_absent_witness:
  "order (initial [False, True, True]) = 0 # [1, 2] \<and>
   swap defaultProps (initial [False, True, True]) = Inr (initial [False, True, True])"
  using swap_front_handle_absent [of "initial [False, True, True]" 0 "[1, 2]" defaultProps]
  by (simp add: initial_def upt_rec)

section \<open>AboutSection: the last card to enter is the active one\<close>

lemma parseInt_attr:
  "parseInt (data_card_index card0Ref) = Some 0"
  "parseInt (data_card_index card1Ref) = Some 1"
  "parseInt (data_card_index card2Ref) = Some 2"
  by (simp_all add: parseInt_def isDigit_def)

lemma observerCallback_append:
  "observerCallback (es @ es') a = observerCallback es' (observerCallback es a)"
  by (induction es arbitrary: a) simp_all

lemma observerCallback_last:
  "observerCallback es a =
     (case filter isIntersecting es of
        [] \<Rightarrow> a
      | x # xs \<Rightarrow> parseInt (data_card_index (target (last (x # xs)))))"
proof (induction es rule: rev_induct)
  case Nil
  then show ?case by simp
next
  case (snoc e es)
  then show ?case
    by (cases "filter isIntersecting es") (simp_all add: observerCallback_append)
qed

text \<open>
  C9. The active card is one index, 0 at first. A batch without entries leaves it as it
  is; an entry that is intersecting sets it to the index written on the entry's card,
  and an entry that is not leaves it alone. So after any batch of entries the active
  card is the card of the last intersecting entry, and the one it was before when no
  entry of the batch is intersecting. Card 2 entering makes 2 active, card 0 entering
  afterwards makes 0 active, and a card leaving changes nothing.
\<close>

theorem active_card_last_entered_wins:
  "activeCardInit = Some 0 \<and>
   observerCallback [] a = a \<and>
   observerCallback (es @ [e]) a =
     (if isIntersecting e then parseInt (data_card_index (target e)) else observerCallback es a) \<and>
   observerCallback es a =
     (case filter isIntersecting es of
        [] \<Rightarrow> a
      | x # xs \<Rightarrow> parseInt (data_card_index (target (last (x # xs))))) \<and>
   parseInt (data_card_index card0Ref) = Some 0 \<and>
   parseInt (data_card_index card1Ref) = Some 1 \<and>
   parseInt (data_card_index card2Ref) = Some 2 \<and>
   observerCallback [\<lparr>isIntersecting = True, target = card2Ref\<rparr>] activeCardInit = Some 2 \<and>
   observerCallback [\<lparr>isIntersecting = True, target = card0Ref\<rparr>]
     (observerCallback [\<lparr>isIntersecting = True, target = card2Ref\<rparr>] activeCardInit) = Some 0 \<and>
   observerCallback [\<lparr>isIntersecting = False, target = card1Ref\<rparr>]
     (observerCallback [\<lparr>isIntersecting = True, target = card2Ref\<rparr>] activeCardInit) = Some 2"
proof -
  note l = observerCallback_last [of es a]
  show ?thesis
    using parseInt_attr l by (simp add: observerCallback_append activeCardInit_def)
qed


section \<open>What swap schedules\<close>

lemma isPermutation_rotate1: "isPermutation n xs \<Longrightarrow> isPermutation n (rotate1 xs)"
  by (simp add: isPermutation_def)

lemma in_map_filter: "y \<in> set (List.map_filter f xs) \<longleftrightarrow> (\<exists>x\<in>set xs. f x = Some y)"
  by (induction xs) (auto simp: List.map_filter_simps split: option.splits)

lemma map_filter_append: "List.map_filter f (xs @ ys) = List.map_filter f xs @ List.map_filter f ys"
  by (simp add: List.map_filter_def)

lemma promoteEach_ok:
  "\<forall>c\<in>set rest. c < length rs \<Longrightarrow>
   \<exists>es. promoteEach P C rs pr rest i = Inr es \<and>
        (\<forall>e\<in>set es. payload (snd (snd e)) = None \<and>
                     (\<exists>c\<in>set rest. rs ! c \<and> animated (snd (snd e)) = Some c)) \<and>
        (\<forall>c\<in>set rest. rs ! c \<longrightarrow> (\<exists>e\<in>set es. animated (snd (snd e)) = Some c))"
proof (induction rest arbitrary: i)
  case Nil
  then show ?case by simp
next
  case (Cons idx rest)
  then obtain es where es: "promoteEach P C rs pr rest (Suc i) = Inr es"
    "\<forall>e\<in>set es. payload (snd (snd e)) = None \<and> (\<exists>c\<in>set rest. rs ! c \<and> animated (snd (snd e)) = Some c)"
    "\<forall>c\<in>set rest. rs ! c \<longrightarrow> (\<exists>e\<in>set es. animated (snd (snd e)) = Some c)"
    by (metis list.set_intros(2))
  from Cons.prems have idx: "idx < length rs" by simp
  show ?case
  proof (cases "rs ! idx")
    case True
    with es idx show ?thesis by (auto simp: Let_def)
  next
    case False
    with es idx show ?thesis by auto
  qed
qed

lemma fold_max_start:
  "fold (\<lambda>(st, d, a) m. max m (st + d)) es m =
   max m (fold (\<lambda>(st, d, a) m. max m (st + d)) (es :: entry list) 0)"
proof (induction es arbitrary: m)
  case Nil
  then show ?case by simp
next
  case (Cons e es)
  obtain st d a where e: "e = (st, d, a)" by (cases e)
  have 1: "fold (\<lambda>(st, d, a) m. max m (st + d)) es (max m (st + d)) =
           max (max m (st + d)) (fold (\<lambda>(st, d, a) m. max m (st + d)) es 0)"
    by (rule Cons.IH)
  have 2: "fold (\<lambda>(st, d, a) m. max m (st + d)) es (st + d) =
           max (st + d) (fold (\<lambda>(st, d, a) m. max m (st + d)) es 0)"
    by (rule Cons.IH)
  show ?case by (simp add: e 1 2 max.assoc)
qed

lemma endTime_append: "endTime (es @ es') = max (endTime es) (endTime es')"
  unfolding endTime_def fold_append comp_def
  by (rule fold_max_start)

lemma endTime_Cons: "endTime ((st, d, a) # es) = max (st + d) (endTime es)"
  using endTime_append [of "[(st, d, a)]" es] by (simp add: endTime_def)

lemma endTime_Nil: "endTime [] = 0"
  by (simp add: endTime_def)

lemma swap_result:
  assumes "\<forall>c\<in>set (order s). c < length (refs s)"
  shows "swap P s = Inr s \<or>
         (\<exists>front rest es.
            order s = front # rest \<and> rest \<noteq> [] \<and> refs s ! front \<and>
            swap P s = Inr (s\<lparr>timelines :=
                \<lparr> children = es @ [(endTime es, 0, Commit (rest @ [front]))],
                  playhead = 0, paused = False \<rparr> # timelines s\<rparr>) \<and>
            (\<forall>e\<in>set es. payload (snd (snd e)) = None \<and>
                (\<exists>c\<in>set (order s). refs s ! c \<and> animated (snd (snd e)) = Some c)) \<and>
            (\<forall>c\<in>set (order s). refs s ! c \<longrightarrow> (\<exists>e\<in>set es. animated (snd (snd e)) = Some c)) \<and>
            durDrop (config P) \<le> endTime es)"
proof (cases "order s")
  case Nil
  then show ?thesis by (simp add: swap_def)
next
  case (Cons front rest)
  show ?thesis
  proof (cases "rest = [] \<or> \<not> refs s ! front")
    case True
    with Cons assms show ?thesis by (auto simp: swap_def)
  next
    case False
    then have rest: "rest \<noteq> []" and front: "refs s ! front" by auto
    from assms Cons have lt: "front < length (refs s)" "\<forall>c\<in>set rest. c < length (refs s)" by auto
    define pr where "pr = endTime [(0, durDrop (config P), DropBy front 500)]
        - durDrop (config P) * promoteOverlap (config P) div 100"
    from promoteEach_ok [OF lt(2), of P "config P" pr 0]
    obtain pes where pes: "promoteEach P (config P) (refs s) pr rest 0 = Inr pes"
      "\<forall>e\<in>set pes. payload (snd (snd e)) = None \<and> (\<exists>c\<in>set rest. refs s ! c \<and> animated (snd (snd e)) = Some c)"
      "\<forall>c\<in>set rest. refs s ! c \<longrightarrow> (\<exists>e\<in>set pes. animated (snd (snd e)) = Some c)"
      by blast
    define bs where "bs = makeSlot (length (refs s) - 1) (cardDistance P) (verticalDistance P) (length (refs s))"
    define rt where "rt = pr + durMove (config P) * returnDelay (config P) div 100"
    define es where "es = [(0, durDrop (config P), DropBy front 500)] @ pes @
       [(rt, 0, SetZIndex front (zIndex bs)), (rt, durReturn (config P), MoveTo front bs),
        (rt, 0, SetFront front False)]"
    have len: "\<not> length (order s) < 2"
      using Cons rest by (cases rest) simp_all
    have sw: "swap P s = Inr (s\<lparr>timelines :=
                \<lparr> children = es @ [(endTime es, 0, Commit (rest @ [front]))],
                  playhead = 0, paused = False \<rparr> # timelines s\<rparr>)"
      unfolding swap_def es_def bs_def rt_def
      using len Cons front lt(1) pes(1) [unfolded pr_def]
      by (simp add: Let_def pr_def)
    have a: "\<forall>e\<in>set es. payload (snd (snd e)) = None \<and>
                (\<exists>c\<in>set (order s). refs s ! c \<and> animated (snd (snd e)) = Some c)"
      using pes(2) front Cons by (auto simp: es_def)
    have b: "\<forall>c\<in>set (order s). refs s ! c \<longrightarrow> (\<exists>e\<in>set es. animated (snd (snd e)) = Some c)"
      using pes(3) Cons by (auto simp: es_def)
    have c: "durDrop (config P) \<le> endTime es"
      by (simp add: es_def endTime_Cons)
    show ?thesis
      apply (rule disjI2)
      apply (rule exI [of _ front], rule exI [of _ rest], rule exI [of _ es])
      apply (intro conjI)
      using Cons rest front sw a b c by simp_all
  qed
qed

lemma map_filter_none: "\<forall>x\<in>set xs. f x = None \<Longrightarrow> List.map_filter f xs = []"
  by (induction xs) (simp_all add: List.map_filter_simps)

lemma commits_scheduled:
  "\<forall>e\<in>set es. payload (snd (snd e)) = None \<Longrightarrow>
   commits \<lparr> children = es @ [(t, 0, Commit new)], playhead = p, paused = b \<rparr> = [new]"
  by (simp add: commits_def map_filter_append map_filter_none split_beta List.map_filter_simps)

lemma cards_scheduled:
  "cards \<lparr> children = es @ [(t, 0, Commit new)], playhead = p, paused = b \<rparr> =
   {c. \<exists>e\<in>set es. animated (snd (snd e)) = Some c}"
  by (force simp: cards_def in_map_filter split_beta)

lemma isPermutation_upt: "isPermutation n [0..<n]"
  by (simp add: isPermutation_def)

lemma consistent_initial: "consistent (initial handles)"
  by (simp add: consistent_def initial_def isPermutation_upt)

lemma consistent_bounds: "consistent s \<Longrightarrow> \<forall>c\<in>set (order s). c < length (refs s)"
  by (simp add: consistent_def isPermutation_def)

lemma swap_consistent:
  assumes "consistent s"
  shows "\<exists>s'. swap P s = Inr s' \<and> consistent s' \<and> order s' = order s \<and> refs s' = refs s \<and>
           timers s' = timers s \<and> intervalRef s' = intervalRef s \<and> nextId s' = nextId s \<and>
           (s' = s \<or> (\<exists>tln. timelines s' = tln # timelines s \<and>
                         cards tln = {c \<in> set (order s). refs s ! c} \<and>
                         commits tln = [rotate1 (order s)] \<and>
                         playhead tln = 0 \<and> \<not> paused tln))"
proof -
  from swap_result [OF consistent_bounds [OF assms], of P]
  consider "swap P s = Inr s"
    | front rest es where "order s = front # rest" "rest \<noteq> []" "refs s ! front"
        "swap P s = Inr (s\<lparr>timelines :=
                \<lparr> children = es @ [(endTime es, 0, Commit (rest @ [front]))],
                  playhead = 0, paused = False \<rparr> # timelines s\<rparr>)"
        "\<forall>e\<in>set es. payload (snd (snd e)) = None \<and>
                (\<exists>c\<in>set (order s). refs s ! c \<and> animated (snd (snd e)) = Some c)"
        "\<forall>c\<in>set (order s). refs s ! c \<longrightarrow> (\<exists>e\<in>set es. animated (snd (snd e)) = Some c)"
    by blast
  then show ?thesis
  proof cases
    case 1
    with assms show ?thesis by simp
  next
    case 2
    let ?tln = "\<lparr> children = es @ [(endTime es, 0, Commit (rest @ [front]))],
                  playhead = 0, paused = False \<rparr>"
    let ?s' = "s\<lparr>timelines := ?tln # timelines s\<rparr>"
    have rot: "rest @ [front] = rotate1 (order s)" using 2(1) by simp
    have com: "commits ?tln = [rotate1 (order s)]"
      using 2(5) by (simp add: commits_scheduled rot)
    have crd: "cards ?tln = {c \<in> set (order s). refs s ! c}"
      unfolding cards_scheduled using 2(5,6) by auto
    have con: "consistent ?s'"
      using assms com by (simp add: consistent_def isPermutation_rotate1)
    show ?thesis
      apply (rule exI [of _ ?s'])
      using 2(4) con com crd by simp
  qed
qed

section \<open>The order stays a permutation\<close>

lemma swaps_consistent:
  "consistent s \<Longrightarrow>
   \<exists>s'. swaps P n s = Inr s' \<and> consistent s' \<and> order s' = order s \<and> refs s' = refs s \<and>
        timers s' = timers s \<and> intervalRef s' = intervalRef s \<and> nextId s' = nextId s"
proof (induction n arbitrary: s)
  case 0
  then show ?case by simp
next
  case (Suc n)
  from swap_consistent [OF Suc.prems, of P]
  obtain s1 where s1: "swap P s = Inr s1" "consistent s1" "order s1 = order s" "refs s1 = refs s"
    "timers s1 = timers s" "intervalRef s1 = intervalRef s" "nextId s1 = nextId s"
    by blast
  from Suc.IH [OF s1(2)] s1 show ?case by auto
qed

lemma perform_cases: "perform a ord = (case payload a of None \<Rightarrow> ord | Some new \<Rightarrow> new)"
  by (cases a) simp_all

lemma fold_perform_permutation:
  "isPermutation n ord \<Longrightarrow>
   \<forall>a\<in>set as. \<forall>new. payload a = Some new \<longrightarrow> isPermutation n new \<Longrightarrow>
   isPermutation n (fold perform as ord)"
proof (induction as arbitrary: ord)
  case Nil
  then show ?case by simp
next
  case (Cons a as)
  have "isPermutation n (perform a ord)"
    using Cons.prems by (cases "payload a") (simp_all add: perform_cases)
  with Cons show ?case by simp
qed

lemma due_payload:
  "a \<in> set (due tln) \<Longrightarrow> payload a = Some new \<Longrightarrow> new \<in> set (commits tln)"
  by (force simp: due_def commits_def in_map_filter split: if_splits)

lemma commits_stepTimeline: "commits (stepTimeline tln) = commits tln"
  by (simp add: commits_def stepTimeline_def)

lemma tick_consistent:
  assumes "consistent s"
  shows "\<exists>s'. tick P s = Inr s' \<and> consistent s' \<and> refs s' = refs s"
proof -
  let ?fired = "concat (map due (rev (timelines s)))"
  let ?s1 = "s\<lparr>order := fold perform ?fired (order s),
                timelines := map stepTimeline (timelines s)\<rparr>"
  let ?s2 = "?s1\<lparr>timers := map (\<lambda>(i, r). (i, if r \<le> 1 then delay P else r - 1)) (timers ?s1)\<rparr>"
  have fired: "\<forall>a\<in>set ?fired. \<forall>new. payload a = Some new \<longrightarrow> isPermutation (length (refs s)) new"
    using assms by (auto simp: consistent_def dest: due_payload)
  have "isPermutation (length (refs s)) (fold perform ?fired (order s))"
    using assms fired by (intro fold_perform_permutation) (simp_all add: consistent_def)
  then have "consistent ?s2"
    using assms by (simp add: consistent_def commits_stepTimeline)
  from swaps_consistent [OF this, of P "length (filter (\<lambda>(i, r). r \<le> 1) (timers ?s1))"]
  show ?thesis by (auto simp: tick_def Let_def)
qed

lemma advance_consistent:
  "consistent s \<Longrightarrow> \<exists>s'. advance P n s = Inr s' \<and> consistent s' \<and> refs s' = refs s"
proof (induction n arbitrary: s)
  case 0
  then show ?case by simp
next
  case (Suc n)
  from tick_consistent [OF Suc.prems, of P]
  obtain s1 where s1: "tick P s = Inr s1" "consistent s1" "refs s1 = refs s" by blast
  from Suc.IH [OF s1(2)] s1 show ?case by auto
qed

text \<open>
  C8. From a consistent state, whatever DOM nodes are missing, \<open>swap\<close> does not throw.
  It leaves the order as it is and the state consistent, and either changes nothing or
  adds one timeline: that timeline animates exactly the cards that have a DOM node (a
  card without one gets no entry at all) and registers one update of the order, the
  rotation of the present order by one. Whatever time passes afterwards, nothing throws
  and the state stays consistent.
\<close>

theorem swap_skips_absent_handles:
  assumes "consistent s"
  shows "\<exists>s'. swap P s = Inr s' \<and> consistent s' \<and> order s' = order s \<and>
           (s' = s \<or> (\<exists>tln. timelines s' = tln # timelines s \<and>
                         cards tln = {c \<in> set (order s). refs s ! c} \<and>
                         commits tln = [rotate1 (order s)])) \<and>
           (\<exists>s''. advance P n s' = Inr s'' \<and> consistent s'')"
proof -
  from swap_consistent [OF assms, of P]
  obtain s' where s': "swap P s = Inr s'" "consistent s'" "order s' = order s"
    "s' = s \<or> (\<exists>tln. timelines s' = tln # timelines s \<and>
                         cards tln = {c \<in> set (order s). refs s ! c} \<and>
                         commits tln = [rotate1 (order s)] \<and>
                         playhead tln = 0 \<and> \<not> paused tln)"
    by blast
  from advance_consistent [OF s'(2), of P n]
  obtain s'' where "advance P n s' = Inr s''" "consistent s''" by blast
  with s' show ?thesis by blast
qed

theorem swap_skips_absent_handles_witness:
  "consistent (initial [True, False, True]) \<and>
   (\<exists>s'. swap defaultProps (initial [True, False, True]) = Inr s' \<and> consistent s' \<and>
         order s' = [0, 1, 2] \<and>
         (s' = initial [True, False, True] \<or>
          (\<exists>tln. timelines s' = [tln] \<and> cards tln = {0, 2} \<and> commits tln = [[1, 2, 0]])) \<and>
         (\<exists>s''. advance defaultProps 3000 s' = Inr s'' \<and> consistent s''))"
proof -
  have c: "consistent (initial [True, False, True])" by (rule consistent_initial)
  have o: "order (initial [True, False, True]) = [0, 1, 2]"
    by (simp add: initial_def upt_rec)
  have r: "{c \<in> set [0, 1, 2]. [True, False, True] ! c} = {0, 2::nat}"
    by auto
  have i: "refs (initial [True, False, True]) = [True, False, True]"
    "timelines (initial [True, False, True]) = []"
    by (simp_all add: initial_def)
  from swap_skips_absent_handles [OF c, of defaultProps 3000] c show ?thesis
    unfolding o i r by simp
qed

lemma commits_paused: "commits (tln\<lparr>paused := b\<rparr>) = commits tln"
  by (simp add: commits_def)

lemma pause_consistent: "consistent s \<Longrightarrow> consistent (pause s)"
  by (cases "timelines s") (auto simp: consistent_def pause_def clearInterval_def commits_paused)

lemma resume_consistent: "consistent s \<Longrightarrow> consistent (resume P s)"
  by (cases "timelines s") (auto simp: consistent_def resume_def setInterval_def commits_paused)

lemma refs_pause: "refs (pause s) = refs s"
  by (simp add: pause_def clearInterval_def)

lemma refs_resume: "refs (resume P s) = refs s"
  by (simp add: resume_def setInterval_def)

lemma handle_consistent:
  assumes "consistent s"
  shows "\<exists>s'. handle P ev s = Inr s' \<and> consistent s' \<and> length (refs s') = length (refs s)"
proof (cases ev)
  case (Elapse n)
  with advance_consistent [OF assms, of P n] show ?thesis by auto
next
  case MouseEnter
  with assms show ?thesis by (simp add: pause_consistent refs_pause)
next
  case MouseLeave
  with assms show ?thesis by (simp add: resume_consistent refs_resume)
next
  case (SetHandle i b)
  with assms show ?thesis by (simp add: consistent_def)
qed

lemma run_consistent:
  "consistent s \<Longrightarrow>
   \<exists>s'. run P evs s = Inr s' \<and> consistent s' \<and> length (refs s') = length (refs s)"
proof (induction evs arbitrary: s)
  case Nil
  then show ?case by simp
next
  case (Cons ev evs)
  from handle_consistent [OF Cons.prems, of P ev]
  obtain s1 where s1: "handle P ev s = Inr s1" "consistent s1" "length (refs s1) = length (refs s)"
    by blast
  from Cons.IH [OF s1(2)] s1 show ?case by auto
qed

lemma mount_consistent:
  "\<exists>s. mount P handles = Inr s \<and> consistent s \<and> refs s = handles"
proof -
  from swap_consistent [OF consistent_initial, of P handles]
  obtain s1 where s1: "swap P (initial handles) = Inr s1" "consistent s1"
    "refs s1 = refs (initial handles)"
    by blast
  then have "consistent (setInterval (delay P) s1)" "refs (setInterval (delay P) s1) = handles"
    by (simp_all add: consistent_def setInterval_def initial_def)
  with s1(1) show ?thesis by (simp add: mount_def)
qed


text \<open>
  C4. For every list of cards and every course of events after mounting (time passing,
  the pointer entering and leaving, DOM nodes coming and going), nothing throws and the
  order is a full permutation of \<open>[0..N-1]\<close>: its length is \<open>N\<close>, it has no duplicates,
  and its elements are exactly \<open>0..N-1\<close>. So is every list still waiting on a timeline.
\<close>

theorem order_always_permutation:
  "\<exists>s0 s. mount P handles = Inr s0 \<and> run P evs s0 = Inr s \<and>
          length (order s) = length handles \<and> distinct (order s) \<and>
          set (order s) = {0..<length handles} \<and> consistent s"
proof -
  from mount_consistent [of P handles]
  obtain s0 where s0: "mount P handles = Inr s0" "consistent s0" "refs s0 = handles" by blast
  from run_consistent [OF s0(2), of P evs]
  obtain s where s: "run P evs s0 = Inr s" "consistent s" "length (refs s) = length (refs s0)"
    by blast
  from s(2,3) s0(3) have "isPermutation (length handles) (order s)"
    by (simp add: consistent_def)
  with s0(1) s(1,2) show ?thesis by (auto simp: isPermutation_def)
qed

theorem order_always_permutation_witness:
  "\<exists>s0 s. mount (defaultProps\<lparr>pauseOnHover := True\<rparr>) [True, False, True] = Inr s0 \<and>
          run (defaultProps\<lparr>pauseOnHover := True\<rparr>)
            [Elapse 7000, MouseEnter, SetHandle 1 True, MouseLeave, Elapse 12000] s0 = Inr s \<and>
          length (order s) = 3 \<and> distinct (order s) \<and> set (order s) = {0..<3} \<and>
          consistent s"
proof -
  have l: "length [True, False, True] = 3" by simp
  from order_always_permutation
         [of "defaultProps\<lparr>pauseOnHover := True\<rparr>" "[True, False, True]"
             "[Elapse 7000, MouseEnter, SetHandle 1 True, MouseLeave, Elapse 12000]"]
  show ?thesis unfolding l .
qed

section \<open>Time: stretches in which nothing fires\<close>

lemma advance_add:
  "advance P (m + n) s = (case advance P m s of Inl e \<Rightarrow> Inl e | Inr s' \<Rightarrow> advance P n s')"
  by (induction m arbitrary: s) (simp_all split: sum.splits)

lemma fold_perform_none: "\<forall>a\<in>set as. payload a = None \<Longrightarrow> fold perform as ord = ord"
  by (induction as) (simp_all add: perform_cases)

lemma duration_stepTimeline: "duration (stepTimeline t) = duration t"
  by (simp add: stepTimeline_def duration_def)

lemma tick_idle:
  assumes "\<forall>(i, r)\<in>set (timers s). 1 < r"
    and "\<forall>t\<in>set (timelines s). \<forall>a\<in>set (due t). payload a = None"
  shows "tick P s = Inr (s\<lparr>timelines := map stepTimeline (timelines s),
                          timers := map (\<lambda>(i, r). (i, r - Suc 0)) (timers s)\<rparr>)"
proof -
  have f: "fold perform (concat (map due (rev (timelines s)))) (order s) = order s"
    using assms(2) by (intro fold_perform_none) auto
  have n: "filter (\<lambda>(i, r). r \<le> 1) (timers s) = []"
    using assms(1) by (auto simp: filter_empty_conv)
  have m: "map (\<lambda>(i, r). (i, if r \<le> 1 then delay P else r - 1)) (timers s) =
           map (\<lambda>(i, r). (i, r - Suc 0)) (timers s)"
    using assms(1) by (intro map_cong) auto
  show ?thesis using f n m by (simp add: tick_def Let_def)
qed

lemma advance_idle:
  assumes "\<forall>(i, r)\<in>set (timers s). n < r"
    and "\<forall>t\<in>set (timelines s). playing t \<longrightarrow>
           playhead t + n < duration t \<and>
           (\<forall>(st, d, a)\<in>set (children t). payload a \<noteq> None \<longrightarrow> playhead t + n < st)"
  shows "advance P n s = Inr (s\<lparr>timelines := map (elapse n) (timelines s),
                               timers := map (\<lambda>(i, r). (i, r - n)) (timers s)\<rparr>)"
  using assms
proof (induction n arbitrary: s)
  case 0
  have "map (elapse 0) (timelines s) = timelines s"
    by (intro map_idI) (simp add: elapse_def)
  moreover have "map (\<lambda>(i, r). (i, r - 0)) (timers s) = timers s"
    by (intro map_idI) auto
  ultimately show ?case by simp
next
  case (Suc n)
  let ?s1 = "s\<lparr>timelines := map stepTimeline (timelines s),
                timers := map (\<lambda>(i, r). (i, r - Suc 0)) (timers s)\<rparr>"
  have t1: "\<forall>(i, r)\<in>set (timers s). 1 < r" using Suc.prems(1) by auto
  have d: "\<forall>t\<in>set (timelines s). \<forall>a\<in>set (due t). payload a = None"
    using Suc.prems(2) by (fastforce simp: due_def split: if_splits)
  have tick: "tick P s = Inr ?s1" by (rule tick_idle [OF t1 d])
  have p1: "\<forall>(i, r)\<in>set (timers ?s1). n < r" using Suc.prems(1) by auto
  have p2: "\<forall>t\<in>set (timelines ?s1). playing t \<longrightarrow>
           playhead t + n < duration t \<and>
           (\<forall>(st, d, a)\<in>set (children t). payload a \<noteq> None \<longrightarrow> playhead t + n < st)"
  proof (intro ballI impI)
    fix t' assume t': "t' \<in> set (timelines ?s1)" and pl: "playing t'"
    from t' obtain t where t: "t \<in> set (timelines s)" "t' = stepTimeline t" by auto
    from pl t(2) have plt: "playing t"
      by (auto simp: stepTimeline_def playing_def duration_def split: if_splits)
    with Suc.prems(2) t(1) have h: "playhead t + Suc n < duration t"
      "\<forall>(st, d, a)\<in>set (children t). payload a \<noteq> None \<longrightarrow> playhead t + Suc n < st"
      by auto
    have st: "playhead t' = Suc (playhead t)" "children t' = children t" "duration t' = duration t"
      using plt t(2) by (simp_all add: stepTimeline_def duration_def)
    show "playhead t' + n < duration t' \<and>
          (\<forall>(st, d, a)\<in>set (children t'). payload a \<noteq> None \<longrightarrow> playhead t' + n < st)"
      using h unfolding st by auto
  qed
  have e: "map (elapse n) (map stepTimeline (timelines s)) = map (elapse (Suc n)) (timelines s)"
    using Suc.prems(2)
    by (auto simp: elapse_def stepTimeline_def playing_def duration_def)
  have m: "map (\<lambda>(i, r). (i, r - n)) (map (\<lambda>(i, r). (i, r - Suc 0)) (timers s)) =
           map (\<lambda>(i, r). (i, r - Suc n)) (timers s)"
    by auto
  show ?case using Suc.IH [OF p1 p2] by (simp add: tick e m del: map_map)
qed

lemma tick_no_fire:
  assumes "\<forall>(i, r)\<in>set (timers s). 1 < r"
  shows "tick P s = Inr (s\<lparr>order := fold perform (concat (map due (rev (timelines s)))) (order s),
                          timelines := map stepTimeline (timelines s),
                          timers := map (\<lambda>(i, r). (i, r - Suc 0)) (timers s)\<rparr>)"
proof -
  have n: "filter (\<lambda>(i, r). r \<le> 1) (timers s) = []"
    using assms by (auto simp: filter_empty_conv)
  have m: "map (\<lambda>(i, r). (i, if r \<le> 1 then delay P else r - 1)) (timers s) =
           map (\<lambda>(i, r). (i, r - Suc 0)) (timers s)"
    using assms by (intro map_cong) auto
  show ?thesis using n m by (simp add: tick_def Let_def)
qed

section \<open>Cycles that do not overlap\<close>

lemma promoteEach_endTime:
  assumes "length rest = length rest'"
    and "\<forall>c\<in>set rest. c < length rs \<and> rs ! c"
    and "\<forall>c\<in>set rest'. c < length rs \<and> rs ! c"
  shows "\<exists>es es'. promoteEach P C rs pr rest i = Inr es \<and>
                 promoteEach P C rs pr rest' i = Inr es' \<and>
                 endTime es = endTime es' \<and>
                 (\<forall>e\<in>set es. payload (snd (snd e)) = None)"
  using assms
proof (induction rest rest' arbitrary: i rule: list_induct2)
  case Nil
  then show ?case by simp
next
  case (Cons c rest c' rest')
  from Cons.IH [of "Suc i"] Cons.prems
  obtain es es' where es: "promoteEach P C rs pr rest (Suc i) = Inr es"
    "promoteEach P C rs pr rest' (Suc i) = Inr es'" "endTime es = endTime es'"
    "\<forall>e\<in>set es. payload (snd (snd e)) = None"
    by auto
  from Cons.prems have c: "c < length rs" "rs ! c" "c' < length rs" "rs ! c'" by simp_all
  show ?case using es c by (simp add: Let_def endTime_Cons)
qed

lemma swap_present:
  assumes "order s = front # rest" "rest \<noteq> []"
    and "\<forall>c\<in>set (order s). c < length (refs s) \<and> refs s ! c"
  shows "\<exists>pes es.
           promoteEach P (config P) (refs s)
             (durDrop (config P) - durDrop (config P) * promoteOverlap (config P) div 100) rest 0
             = Inr pes \<and>
           swap P s = Inr (s\<lparr>timelines :=
                \<lparr> children = es @ [(endTime es, 0, Commit (rest @ [front]))],
                  playhead = 0, paused = False \<rparr> # timelines s\<rparr>) \<and>
           (\<forall>e\<in>set es. payload (snd (snd e)) = None) \<and>
           endTime es =
             max (durDrop (config P))
               (max (endTime pes)
                  (durDrop (config P) - durDrop (config P) * promoteOverlap (config P) div 100
                   + durMove (config P) * returnDelay (config P) div 100 + durReturn (config P)))"
proof -
  define pr where "pr = durDrop (config P) - durDrop (config P) * promoteOverlap (config P) div 100"
  have len: "\<not> length (order s) < 2"
    using assms(1,2) by (cases rest) simp_all
  from assms(1,3) have fr: "front < length (refs s)" "refs s ! front" by simp_all
  from assms(1,3) have "\<forall>c\<in>set rest. c < length (refs s)" by simp
  from promoteEach_ok [OF this, of P "config P" pr 0]
  obtain pes where pes: "promoteEach P (config P) (refs s) pr rest 0 = Inr pes"
    "\<forall>e\<in>set pes. payload (snd (snd e)) = None"
    by blast
  define bs where "bs = makeSlot (length (refs s) - 1) (cardDistance P) (verticalDistance P)
                          (length (refs s))"
  define rt where "rt = pr + durMove (config P) * returnDelay (config P) div 100"
  define es where "es = [(0, durDrop (config P), DropBy front 500)] @ pes @
       [(rt, 0, SetZIndex front (zIndex bs)), (rt, durReturn (config P), MoveTo front bs),
        (rt, 0, SetFront front False)]"
  have e1: "endTime [(0, durDrop (config P), DropBy front 500)] = durDrop (config P)"
    by (simp add: endTime_Cons endTime_Nil)
  have sw: "swap P s = Inr (s\<lparr>timelines :=
                \<lparr> children = es @ [(endTime es, 0, Commit (rest @ [front]))],
                  playhead = 0, paused = False \<rparr> # timelines s\<rparr>)"
    unfolding swap_def es_def bs_def rt_def
    using len assms(1) fr pes(1) [unfolded pr_def]
    by (simp add: Let_def pr_def e1)
  have nc: "\<forall>e\<in>set es. payload (snd (snd e)) = None"
    using pes(2) by (auto simp: es_def)
  have et: "endTime es = max (durDrop (config P)) (max (endTime pes) (rt + durReturn (config P)))"
    by (simp add: es_def endTime_Cons endTime_append endTime_Nil max.assoc)
  show ?thesis
    apply (rule exI [of _ pes], rule exI [of _ es])
    apply (intro conjI)
       apply (rule pes(1) [unfolded pr_def])
      apply (rule sw)
     apply (rule nc)
    apply (rule et [unfolded rt_def pr_def])
    done
qed

lemma duration_scheduled:
  "duration \<lparr> children = es @ [(endTime es, 0, a)], playhead = p, paused = b \<rparr> = endTime es"
  by (simp add: duration_def endTime_append endTime_Cons endTime_Nil)

lemma swap_all_present:
  assumes "isPermutation (length (refs s)) (order s)" "2 \<le> length (refs s)"
    and "\<forall>h\<in>set (refs s). h"
  shows "\<exists>es. swap P s = Inr (s\<lparr>timelines :=
                \<lparr> children = es @ [(cycleTime P (refs s), 0, Commit (rotate1 (order s)))],
                  playhead = 0, paused = False \<rparr> # timelines s\<rparr>) \<and>
              (\<forall>e\<in>set es. payload (snd (snd e)) = None) \<and>
              endTime es = cycleTime P (refs s) \<and> 0 < cycleTime P (refs s)"
proof -
  let ?N = "length (refs s)"
  let ?pr = "durDrop (config P) - durDrop (config P) * promoteOverlap (config P) div 100"
  let ?s0 = "initial (refs s)"
  from assms(1,2) obtain front rest where o: "order s = front # rest" "rest \<noteq> []"
    by (cases "order s"; cases "tl (order s)") (auto simp: isPermutation_def)
  have all: "\<forall>c\<in>set (order s). c < ?N \<and> refs s ! c"
    using assms(1,3) by (auto simp: isPermutation_def)
  have o0: "order ?s0 = 0 # [Suc 0..<?N]" "[Suc 0..<?N] \<noteq> []" "refs ?s0 = refs s"
    "timelines ?s0 = []"
    using assms(2) by (auto simp: initial_def upt_rec [of 0])
  have all0: "\<forall>c\<in>set (order ?s0). c < length (refs ?s0) \<and> refs ?s0 ! c"
    using assms(3) by (auto simp: initial_def)
  from swap_present [OF o all, of P]
  obtain pes es where 1: "promoteEach P (config P) (refs s) ?pr rest 0 = Inr pes"
    "swap P s = Inr (s\<lparr>timelines :=
                \<lparr> children = es @ [(endTime es, 0, Commit (rest @ [front]))],
                  playhead = 0, paused = False \<rparr> # timelines s\<rparr>)"
    "\<forall>e\<in>set es. payload (snd (snd e)) = None"
    "endTime es = max (durDrop (config P)) (max (endTime pes)
        (?pr + durMove (config P) * returnDelay (config P) div 100 + durReturn (config P)))"
    by blast
  from swap_present [OF o0(1,2) all0, of P]
  obtain pes0 es0 where 2: "promoteEach P (config P) (refs s) ?pr [Suc 0..<?N] 0 = Inr pes0"
    "swap P ?s0 = Inr (?s0\<lparr>timelines :=
                \<lparr> children = es0 @ [(endTime es0, 0, Commit ([Suc 0..<?N] @ [0]))],
                  playhead = 0, paused = False \<rparr> # timelines ?s0\<rparr>)"
    "endTime es0 = max (durDrop (config P)) (max (endTime pes0)
        (?pr + durMove (config P) * returnDelay (config P) div 100 + durReturn (config P)))"
    unfolding o0(3) by blast
  have len: "length rest = length [Suc 0..<?N]"
    using assms(1) o(1) by (auto simp: isPermutation_def)
  have r: "\<forall>c\<in>set rest. c < ?N \<and> refs s ! c" using all o(1) by simp
  have r0: "\<forall>c\<in>set [Suc 0..<?N]. c < ?N \<and> refs s ! c" using assms(3) by auto
  from promoteEach_endTime [OF len r r0, of P "config P" ?pr 0] 1(1) 2(1)
  have pp: "endTime pes = endTime pes0" by auto
  have eq: "endTime es = endTime es0"
    unfolding 1(4) 2(3) pp by (rule refl)
  have ct: "cycleTime P (refs s) = endTime es0"
    by (simp add: cycleTime_def mount_def 2(2) setInterval_def duration_scheduled)
  have e: "endTime es = cycleTime P (refs s)" using eq ct by simp
  have pos: "0 < durDrop (config P)" by (simp add: config_def)
  have "durDrop (config P) \<le> endTime es"
    unfolding 1(4) by (rule max.cobounded1)
  with pos e have p: "0 < cycleTime P (refs s)" by simp
  have rot: "rest @ [front] = rotate1 (order s)" using o(1) by simp
  show ?thesis
    apply (rule exI [of _ es])
    apply (intro conjI)
       apply (rule 1(2) [unfolded rot e])
      apply (rule 1(3))
     apply (rule e)
    apply (rule p)
    done
qed

lemma not_playing: "\<not> playing t \<Longrightarrow> due t = [] \<and> stepTimeline t = t"
  by (simp add: due_def stepTimeline_def)

lemma due_scheduled:
  assumes "children t = es @ [(D, 0, Commit new)]"
    and "\<forall>e\<in>set es. payload (snd (snd e)) = None"
  shows "fold perform (due t) ord = (if playing t \<and> Suc (playhead t) = D then new else ord)"
proof (cases "playing t")
  case False
  then show ?thesis by (simp add: due_def)
next
  case True
  let ?f = "\<lambda>(st, d, a). if d = 0 \<and> st = Suc (playhead t) then [a] else []"
  have "\<forall>a\<in>set (concat (map ?f es)). payload a = None"
    using assms(2) by (fastforce split: if_splits)
  then have 1: "fold perform (concat (map ?f es)) ord = ord"
    by (rule fold_perform_none)
  have "due t = concat (map ?f es) @ (if D = Suc (playhead t) then [Commit new] else [])"
    using True by (simp add: due_def assms(1))
  then show ?thesis using True 1 by auto
qed

lemma isPermutation_rotate: "isPermutation n (rotate k [0..<n])"
  by (simp add: isPermutation_def)

lemma inCycle_mount:
  assumes "2 \<le> length handles" "\<forall>h\<in>set handles. h" "0 < delay P"
  shows "\<exists>s. mount P handles = Inr s \<and> inCycle P 0 0 s \<and> refs s = handles"
proof -
  have r: "refs (initial handles) = handles" "order (initial handles) = [0..<length handles]"
    "timelines (initial handles) = []" "timers (initial handles) = []"
    by (simp_all add: initial_def)
  have p: "isPermutation (length (refs (initial handles))) (order (initial handles))"
    by (simp add: r isPermutation_upt)
  from swap_all_present [OF p, of P] assms(1,2)
  obtain es where es: "swap P (initial handles) = Inr (initial handles\<lparr>timelines :=
                [\<lparr> children = es @ [(cycleTime P handles, 0, Commit (rotate1 [0..<length handles]))],
                  playhead = 0, paused = False \<rparr>]\<rparr>)"
     "\<forall>e\<in>set es. payload (snd (snd e)) = None"
     "endTime es = cycleTime P handles" "0 < cycleTime P handles"
    unfolding r by auto
  show ?thesis
    using es assms(2,3) by (simp add: mount_def setInterval_def inCycle_def r)
qed

lemma inCycle_tick:
  assumes inv: "inCycle P k d s"
    and D: "cycleTime P (refs s) < delay P"
    and N: "2 \<le> length (refs s)"
  shows "\<exists>s'. tick P s = Inr s' \<and> refs s' = refs s \<and>
              (if Suc d < delay P then inCycle P k (Suc d) s' else inCycle P (Suc k) 0 s')"
proof -
  let ?N = "length (refs s)"
  let ?D = "cycleTime P (refs s)"
  from inv obtain i tln tls es where
    h1: "\<forall>h\<in>set (refs s). h" and h2: "d < delay P" and h3: "timers s = [(i, delay P - d)]"
    and h4: "timelines s = tln # tls" and h5: "length tls = k"
    and h6: "\<forall>t\<in>set tls. duration t \<le> playhead t"
    and h7: "children tln = es @ [(?D, 0, Commit (rotate (Suc k) [0..<?N]))]"
    and h8: "\<forall>e\<in>set es. payload (snd (snd e)) = None"
    and h9: "endTime es = ?D"
    and h10: "playhead tln = min d ?D" and h11: "\<not> paused tln"
    and h12: "order s = rotate (if d < ?D then k else Suc k) [0..<?N]"
    unfolding inCycle_def by blast
  have dur: "duration tln = ?D"
    by (simp add: duration_def h7 h9 endTime_append endTime_Cons endTime_Nil)
  have old: "\<forall>t\<in>set tls. \<not> playing t"
    using h6 by (auto simp: playing_def)
  have fired0: "concat (map due (rev tls)) = []"
    using old by (simp add: not_playing)
  have st_old: "map stepTimeline tls = tls"
    using old by (intro map_idI) (simp add: not_playing)
  have pl: "playing tln \<longleftrightarrow> d < ?D"
    by (auto simp: playing_def h10 h11 dur)
  define ord' where "ord' = fold perform (concat (map due (rev (timelines s)))) (order s)"
  have "ord' = fold perform (due tln) (order s)"
    by (simp add: ord'_def h4 fired0)
  also have "\<dots> = (if playing tln \<and> Suc (playhead tln) = ?D then rotate (Suc k) [0..<?N]
                     else order s)"
    by (rule due_scheduled [OF h7 h8])
  also have "\<dots> = rotate (if Suc d < ?D then k else Suc k) [0..<?N]"
    using h12 by (auto simp: pl h10)
  finally have ord': "ord' = rotate (if Suc d < ?D then k else Suc k) [0..<?N]" .
  define tln' where "tln' = stepTimeline tln"
  have tln': "children tln' = children tln" "playhead tln' = min (Suc d) ?D" "\<not> paused tln'"
    by (auto simp: tln'_def stepTimeline_def pl h10 h11)
  let ?s1 = "s\<lparr>order := ord', timelines := tln' # tls\<rparr>"
  show ?thesis
  proof (cases "Suc d < delay P")
    case True
    then have r: "\<not> delay P - d \<le> Suc 0" by simp
    have tick: "tick P s = Inr (?s1\<lparr>timers := [(i, delay P - Suc d)]\<rparr>)"
      using r by (simp add: tick_def Let_def h3 h4 st_old ord'_def tln'_def)
    have "inCycle P k (Suc d) (?s1\<lparr>timers := [(i, delay P - Suc d)]\<rparr>)"
      unfolding inCycle_def
      using h1 True h5 h6 h7 h8 h9 tln' ord' by simp
    with tick True show ?thesis by simp
  next
    case False
    with h2 have e: "Suc d = delay P" by simp
    with D have dD: "?D \<le> d" by simp
    let ?s2 = "?s1\<lparr>timers := [(i, delay P)]\<rparr>"
    have r: "delay P - d \<le> Suc 0" using e by simp
    have tick: "tick P s = (case swap P ?s2 of Inl e \<Rightarrow> Inl e | Inr s' \<Rightarrow> Inr s')"
      using r by (simp add: tick_def Let_def h3 h4 st_old ord'_def tln'_def split: sum.split)
    have o2: "ord' = rotate (Suc k) [0..<?N]" using ord' dD by simp
    have p: "isPermutation (length (refs ?s2)) (order ?s2)"
      by (simp add: o2 isPermutation_def)
    from swap_all_present [OF p, of P] N h1
    obtain es2 where es2: "swap P ?s2 = Inr (?s2\<lparr>timelines :=
                \<lparr> children = es2 @ [(?D, 0, Commit (rotate1 ord'))],
                  playhead = 0, paused = False \<rparr> # tln' # tls\<rparr>)"
      "\<forall>e\<in>set es2. payload (snd (snd e)) = None"
      "endTime es2 = ?D" "0 < ?D"
      by auto
    have done': "duration tln' \<le> playhead tln'"
      using dD by (simp add: duration_def tln' h7 h9 endTime_append endTime_Cons endTime_Nil)
    have "inCycle P (Suc k) 0 (?s2\<lparr>timelines :=
                \<lparr> children = es2 @ [(?D, 0, Commit (rotate1 ord'))],
                  playhead = 0, paused = False \<rparr> # tln' # tls\<rparr>)"
      unfolding inCycle_def
      using h1 h2 h5 h6 done' es2(2,3,4) o2 by simp
    with tick es2(1) False show ?thesis by simp
  qed
qed

lemma inCycle_advance:
  assumes "inCycle P k d s" "cycleTime P (refs s) < delay P" "2 \<le> length (refs s)"
  shows "\<exists>s'. advance P n s = Inr s' \<and> refs s' = refs s \<and>
              inCycle P ((k * delay P + d + n) div delay P) ((k * delay P + d + n) mod delay P) s'"
  using assms
proof (induction n arbitrary: k d s)
  case 0
  then have "d < delay P" by (simp add: inCycle_def)
  with 0 show ?case by simp
next
  case (Suc n)
  from Suc.prems(1) have d: "d < delay P" by (simp add: inCycle_def)
  from inCycle_tick [OF Suc.prems]
  obtain s1 where s1: "tick P s = Inr s1" "refs s1 = refs s"
    "if Suc d < delay P then inCycle P k (Suc d) s1 else inCycle P (Suc k) 0 s1"
    by blast
  show ?case
  proof (cases "Suc d < delay P")
    case True
    with s1(3) have i: "inCycle P k (Suc d) s1" by simp
    from Suc.IH [OF i] Suc.prems(2,3) s1(1,2) show ?thesis by simp
  next
    case False
    with s1(3) have i: "inCycle P (Suc k) 0 s1" by simp
    from False d have e: "delay P = Suc d" by simp
    have eq: "Suc k * delay P + 0 + n = k * delay P + d + Suc n" by (simp add: e)
    from Suc.IH [OF i] Suc.prems(2,3) s1(2)
    obtain s' where s': "advance P n s1 = Inr s'" "refs s' = refs s1"
      "inCycle P ((Suc k * delay P + 0 + n) div delay P)
         ((Suc k * delay P + 0 + n) mod delay P) s'"
      by auto
    from s'(3) have "inCycle P ((k * delay P + d + Suc n) div delay P)
         ((k * delay P + d + Suc n) mod delay P) s'"
      unfolding eq .
    with s'(1,2) s1(1,2) show ?thesis by simp
  qed
qed

lemma inCycle_order:
  assumes "inCycle P k d s"
  shows "completed s = (if d < cycleTime P (refs s) then k else Suc k) \<and>
         order s = rotate (completed s mod length (refs s)) [0..<length (refs s)]"
proof -
  let ?N = "length (refs s)"
  let ?D = "cycleTime P (refs s)"
  from assms obtain tln tls es where
    h4: "timelines s = tln # tls" and h5: "length tls = k"
    and h6: "\<forall>t\<in>set tls. duration t \<le> playhead t"
    and h7: "children tln = es @ [(?D, 0, Commit (rotate (Suc k) [0..<?N]))]"
    and h9: "endTime es = ?D"
    and h10: "playhead tln = min d ?D"
    and h12: "order s = rotate (if d < ?D then k else Suc k) [0..<?N]"
    unfolding inCycle_def by blast
  have dur: "duration tln = ?D"
    by (simp add: duration_def h7 h9 endTime_append endTime_Cons endTime_Nil)
  have "filter (\<lambda>t. duration t \<le> playhead t) tls = tls"
    using h6 by (simp add: filter_id_conv)
  then have c: "completed s = (if d < ?D then k else Suc k)"
    by (auto simp: completed_def h4 h5 dur h10)
  have "rotate (completed s mod ?N) [0..<?N] = rotate (completed s) [0..<?N]"
    using rotate_conv_mod [of "completed s" "[0..<?N]"] by simp
  with c h12 show ?thesis by simp
qed


lemma cycleTime_three: "cycleTime defaultProps [True, True, True] = 2350"
  by (simp add: cycleTime_def mount_def swap_def initial_def defaultProps_def config_def
        Let_def setInterval_def upt_rec endTime_def makeSlot_def duration_def)

lemma advance_one: "advance P 1 s = tick P s"
  by (simp split: sum.split)

lemmas run_simps = advance_idle mount_def swap_def initial_def defaultProps_def config_def
        Let_def setInterval_def upt_rec endTime_def makeSlot_def duration_def tick_def due_def
        playing_def stepTimeline_def elapse_def outcome_def completed_def


lemma promoteEach_endTime_le:
  assumes "length rest = length rest'"
    and "\<forall>c\<in>set rest. c < length rs"
    and "\<forall>c\<in>set rest'. c < length rs' \<and> rs' ! c"
  shows "\<exists>es es'. promoteEach P C rs pr rest i = Inr es \<and>
                 promoteEach P C rs' pr rest' i = Inr es' \<and>
                 endTime es \<le> endTime es' \<and>
                 (\<forall>e\<in>set es. payload (snd (snd e)) = None)"
  using assms
proof (induction rest rest' arbitrary: i rule: list_induct2)
  case Nil
  then show ?case by simp
next
  case (Cons c rest c' rest')
  from Cons.IH [of "Suc i"] Cons.prems
  obtain es es' where es: "promoteEach P C rs pr rest (Suc i) = Inr es"
    "promoteEach P C rs' pr rest' (Suc i) = Inr es'" "endTime es \<le> endTime es'"
    "\<forall>e\<in>set es. payload (snd (snd e)) = None"
    by auto
  from Cons.prems have c: "c < length rs" "c' < length rs'" "rs' ! c'" by simp_all
  show ?case using es c by (cases "rs ! c") (auto simp: Let_def endTime_Cons)
qed

lemma swap_timeline:
  assumes "order s = front # rest" "rest \<noteq> []"
    and "front < length (refs s)" "refs s ! front"
    and "\<forall>c\<in>set rest. c < length (refs s)"
  shows "\<exists>pes es.
           promoteEach P (config P) (refs s)
             (durDrop (config P) - durDrop (config P) * promoteOverlap (config P) div 100) rest 0
             = Inr pes \<and>
           swap P s = Inr (s\<lparr>timelines :=
                \<lparr> children = es @ [(endTime es, 0, Commit (rest @ [front]))],
                  playhead = 0, paused = False \<rparr> # timelines s\<rparr>) \<and>
           (\<forall>e\<in>set es. payload (snd (snd e)) = None) \<and>
           endTime es =
             max (durDrop (config P))
               (max (endTime pes)
                  (durDrop (config P) - durDrop (config P) * promoteOverlap (config P) div 100
                   + durMove (config P) * returnDelay (config P) div 100 + durReturn (config P)))"
proof -
  define pr where "pr = durDrop (config P) - durDrop (config P) * promoteOverlap (config P) div 100"
  have len: "\<not> length (order s) < 2"
    using assms(1,2) by (cases rest) simp_all
  from promoteEach_ok [OF assms(5), of P "config P" pr 0]
  obtain pes where pes: "promoteEach P (config P) (refs s) pr rest 0 = Inr pes"
    "\<forall>e\<in>set pes. payload (snd (snd e)) = None"
    by blast
  define bs where "bs = makeSlot (length (refs s) - 1) (cardDistance P) (verticalDistance P)
                          (length (refs s))"
  define rt where "rt = pr + durMove (config P) * returnDelay (config P) div 100"
  define es where "es = [(0, durDrop (config P), DropBy front 500)] @ pes @
       [(rt, 0, SetZIndex front (zIndex bs)), (rt, durReturn (config P), MoveTo front bs),
        (rt, 0, SetFront front False)]"
  have e1: "endTime [(0, durDrop (config P), DropBy front 500)] = durDrop (config P)"
    by (simp add: endTime_Cons endTime_Nil)
  have sw: "swap P s = Inr (s\<lparr>timelines :=
                \<lparr> children = es @ [(endTime es, 0, Commit (rest @ [front]))],
                  playhead = 0, paused = False \<rparr> # timelines s\<rparr>)"
    unfolding swap_def es_def bs_def rt_def
    using len assms(1,3,4) pes(1) [unfolded pr_def]
    by (simp add: Let_def pr_def e1)
  have nc: "\<forall>e\<in>set es. payload (snd (snd e)) = None"
    using pes(2) by (auto simp: es_def)
  have et: "endTime es = max (durDrop (config P)) (max (endTime pes) (rt + durReturn (config P)))"
    by (simp add: es_def endTime_Cons endTime_append endTime_Nil max.assoc)
  show ?thesis
    apply (rule exI [of _ pes], rule exI [of _ es])
    apply (intro conjI)
       apply (rule pes(1) [unfolded pr_def])
      apply (rule sw)
     apply (rule nc)
    apply (rule et [unfolded rt_def pr_def])
    done
qed

lemma swap_bounded:
  assumes "isPermutation (length (refs s)) (order s)"
  shows "swap P s = Inr s \<or>
         (\<exists>es. swap P s = Inr (s\<lparr>timelines :=
                \<lparr> children = es @ [(endTime es, 0, Commit (rotate1 (order s)))],
                  playhead = 0, paused = False \<rparr> # timelines s\<rparr>) \<and>
              (\<forall>e\<in>set es. payload (snd (snd e)) = None) \<and>
              0 < endTime es \<and>
              endTime es \<le> cycleTime P (replicate (length (refs s)) True))"
proof (cases "length (order s) < 2 \<or> \<not> refs s ! hd (order s)")
  case True
  then show ?thesis
    using assms by (cases "order s") (auto simp: swap_def isPermutation_def)
next
  case False
  let ?N = "length (refs s)"
  let ?pr = "durDrop (config P) - durDrop (config P) * promoteOverlap (config P) div 100"
  let ?rs0 = "replicate ?N True"
  let ?s0 = "initial ?rs0"
  from False obtain front rest where o: "order s = front # rest" "rest \<noteq> []"
    by (cases "order s"; cases "tl (order s)") auto
  from False o have fr: "refs s ! front" by simp
  from assms o have b: "front < ?N" "\<forall>c\<in>set rest. c < ?N"
    by (auto simp: isPermutation_def)
  from assms o have N: "2 \<le> ?N"
    by (cases rest) (auto simp: isPermutation_def)
  from swap_timeline [OF o b(1) fr b(2), of P]
  obtain pes es where 1: "promoteEach P (config P) (refs s) ?pr rest 0 = Inr pes"
    "swap P s = Inr (s\<lparr>timelines :=
                \<lparr> children = es @ [(endTime es, 0, Commit (rest @ [front]))],
                  playhead = 0, paused = False \<rparr> # timelines s\<rparr>)"
    "\<forall>e\<in>set es. payload (snd (snd e)) = None"
    "endTime es = max (durDrop (config P)) (max (endTime pes)
        (?pr + durMove (config P) * returnDelay (config P) div 100 + durReturn (config P)))"
    by blast
  have o0: "order ?s0 = 0 # [Suc 0..<?N]" "[Suc 0..<?N] \<noteq> []" "refs ?s0 = ?rs0"
    "timelines ?s0 = []"
    using N by (auto simp: initial_def upt_rec [of 0])
  have all0: "\<forall>c\<in>set (order ?s0). c < length (refs ?s0) \<and> refs ?s0 ! c"
    by (auto simp: initial_def)
  from swap_present [OF o0(1,2) all0, of P]
  obtain pes0 es0 where 2: "promoteEach P (config P) ?rs0 ?pr [Suc 0..<?N] 0 = Inr pes0"
    "swap P ?s0 = Inr (?s0\<lparr>timelines :=
                \<lparr> children = es0 @ [(endTime es0, 0, Commit ([Suc 0..<?N] @ [0]))],
                  playhead = 0, paused = False \<rparr> # timelines ?s0\<rparr>)"
    "endTime es0 = max (durDrop (config P)) (max (endTime pes0)
        (?pr + durMove (config P) * returnDelay (config P) div 100 + durReturn (config P)))"
    unfolding o0(3) by blast
  have len: "length rest = length [Suc 0..<?N]"
    using assms o(1) by (auto simp: isPermutation_def)
  have r0: "\<forall>c\<in>set [Suc 0..<?N]. c < length ?rs0 \<and> ?rs0 ! c" by auto
  from promoteEach_endTime_le [OF len b(2) r0, of P "config P" ?pr 0] 1(1) 2(1)
  have "endTime pes \<le> endTime pes0" by auto
  then have le: "endTime es \<le> endTime es0"
    unfolding 1(4) 2(3) by (intro max.mono order_refl)
  have ct: "cycleTime P ?rs0 = endTime es0"
    by (simp add: cycleTime_def mount_def 2(2) setInterval_def duration_scheduled)
  have pos: "0 < durDrop (config P)" by (simp add: config_def)
  have rot: "rest @ [front] = rotate1 (order s)" using o(1) by simp
  have "durDrop (config P) \<le> endTime es"
    unfolding 1(4) by (rule max.cobounded1)
  with pos have p: "0 < endTime es" by simp
  have u: "endTime es \<le> cycleTime P (replicate (length (refs s)) True)"
    using le ct by simp
  show ?thesis
    apply (rule disjI2)
    apply (rule exI [of _ es])
    apply (intro conjI)
       apply (rule 1(2) [unfolded rot])
      apply (rule 1(3))
     apply (rule p)
    apply (rule u)
    done
qed

lemma made_timeline:
  assumes "children t = es @ [(endTime es, 0, Commit new)]"
    and "\<forall>e\<in>set es. payload (snd (snd e)) = None"
  shows "duration t = endTime es" "commits t = [new]"
proof -
  show "duration t = endTime es"
    by (simp add: duration_def assms(1) endTime_append endTime_Cons endTime_Nil)
  show "commits t = [new]"
    using assms(2)
    by (simp add: commits_def assms(1) map_filter_append map_filter_none split_beta
          List.map_filter_simps)
qed

lemma inRun_mount:
  assumes "cycleTime P (replicate (length handles) True) < delay P"
  shows "\<exists>s. mount P handles = Inr s \<and> inRun P 0 s \<and> refs s = handles"
proof -
  let ?s0 = "initial handles"
  have r: "refs ?s0 = handles" "order ?s0 = [0..<length handles]"
    "timelines ?s0 = []" "timers ?s0 = []" "nextId ?s0 = 1"
    by (simp_all add: initial_def)
  have p: "isPermutation (length (refs ?s0)) (order ?s0)"
    by (simp add: r isPermutation_upt)
  from assms have pos: "0 < delay P" by simp
  from swap_bounded [OF p, of P]
  consider "swap P ?s0 = Inr ?s0"
    | es where "swap P ?s0 = Inr (?s0\<lparr>timelines :=
                [\<lparr> children = es @ [(endTime es, 0, Commit (rotate1 [0..<length handles]))],
                  playhead = 0, paused = False \<rparr>]\<rparr>)"
        "\<forall>e\<in>set es. payload (snd (snd e)) = None" "0 < endTime es"
        "endTime es \<le> cycleTime P (replicate (length handles) True)"
    unfolding r by blast
  then show ?thesis
  proof cases
    case 1
    have "inRun P 0 (setInterval (delay P) ?s0)"
      using pos by (simp add: inRun_def setInterval_def r completed_def)
    with 1 show ?thesis by (simp add: mount_def setInterval_def r)
  next
    case 2
    let ?t = "\<lparr> children = es @ [(endTime es, 0, Commit (rotate1 [0..<length handles]))],
                  playhead = 0, paused = False \<rparr>"
    have c: "children ?t = es @ [(endTime es, 0, Commit (rotate1 [0..<length handles]))]"
      by simp
    note m = made_timeline [OF c 2(2)]
    have "inRun P 0 (setInterval (delay P) (?s0\<lparr>timelines := [?t]\<rparr>))"
      unfolding inRun_def
      using pos 2(2,3,4) m
      by (simp add: setInterval_def r completed_def)
    with 2(1) show ?thesis by (simp add: mount_def setInterval_def r)
  qed
qed

lemma inRun_tick_playing:
  assumes inv: "inRun P d s"
    and D: "cycleTime P (replicate (length (refs s)) True) < delay P"
    and tl: "timelines s = t # ts" and pl: "playing t"
  shows "\<exists>s'. tick P s = Inr s' \<and> refs s' = refs s \<and> inRun P (Suc d) s'"
proof -
  let ?N = "length (refs s)"
  let ?M = "cycleTime P (replicate ?N True)"
  from inv obtain i where h3: "timers s = [(i, delay P - d)]"
    unfolding inRun_def by blast
  from inv have hall: "\<forall>t\<in>set (timelines s). \<not> paused t \<and>
        (\<exists>es new. children t = es @ [(endTime es, 0, Commit new)] \<and>
           (\<forall>e\<in>set es. payload (snd (snd e)) = None) \<and>
           0 < endTime es \<and> endTime es \<le> ?M)"
    and hold: "\<forall>t\<in>set (drop 1 (timelines s)). duration t \<le> playhead t"
    and hhead: "case timelines s of [] \<Rightarrow> True
                | t # ts \<Rightarrow> duration t \<le> playhead t \<or>
                    (playhead t = d \<and> commits t = [rotate1 (order s)])"
    and hord: "order s = rotate (completed s) [0..<?N]"
    unfolding inRun_def by blast+
  from hall tl obtain es new where c: "children t = es @ [(endTime es, 0, Commit new)]"
    and nc: "\<forall>e\<in>set es. payload (snd (snd e)) = None"
    and le: "endTime es \<le> ?M" and np: "\<not> paused t"
    by auto
  note m = made_timeline [OF c nc]
  from pl have run: "playhead t < duration t" by (simp add: playing_def)
  with hhead tl have ph: "playhead t = d" and cm: "commits t = [rotate1 (order s)]"
    by auto
  from cm m(2) have new: "new = rotate1 (order s)" by simp
  from run ph m(1) le D have lt: "Suc d < delay P" by simp
  from run ph m(1) have dlt: "d < endTime es" by simp
  have old: "\<forall>u\<in>set ts. \<not> playing u"
    using hold tl by (auto simp: playing_def)
  have oldc: "\<forall>u\<in>set ts. duration u \<le> playhead u"
    using hold tl by simp
  have fired0: "concat (map due (rev ts)) = []"
    using old by (simp add: not_playing)
  have st_old: "map stepTimeline ts = ts"
    using old by (intro map_idI) (simp add: not_playing)
  define t' where "t' = stepTimeline t"
  have t': "children t' = children t" "playhead t' = Suc d" "\<not> paused t'"
    using pl np by (simp_all add: t'_def stepTimeline_def ph)
  have c': "children t' = es @ [(endTime es, 0, Commit new)]" using t'(1) c by simp
  note m' = made_timeline [OF c' nc]
  define ord' where "ord' = fold perform (concat (map due (rev (timelines s)))) (order s)"
  have "ord' = fold perform (due t) (order s)"
    by (simp add: ord'_def tl fired0)
  also have "\<dots> = (if playing t \<and> Suc (playhead t) = endTime es then new else order s)"
    by (rule due_scheduled [OF c nc])
  finally have ord': "ord' = (if Suc d = endTime es then rotate1 (order s) else order s)"
    using pl by (simp add: ph new)
  let ?s' = "s\<lparr>order := ord', timelines := t' # ts, timers := [(i, delay P - Suc d)]\<rparr>"
  have t1: "\<forall>(i, r)\<in>set (timers s). 1 < r" using h3 lt by simp
  have tick: "tick P s = Inr ?s'"
    unfolding tick_no_fire [OF t1]
    by (simp add: ord'_def t'_def tl st_old h3)
  have comp: "completed s = length ts"
    using run oldc by (simp add: completed_def tl filter_id_conv)
  have comp': "completed (s\<lparr>order := x, timelines := t' # ts, timers := y\<rparr>) =
                 (if Suc d = endTime es then Suc (length ts) else length ts)" for x y
    using dlt oldc by (auto simp: completed_def m'(1) t'(2) filter_id_conv)
  have o': "ord' = rotate (completed ?s') [0..<?N]"
    unfolding comp' unfolding ord' using hord comp by simp
  have head: "duration t' \<le> playhead t' \<or> (playhead t' = Suc d \<and> commits t' = [rotate1 ord'])"
    using dlt by (auto simp: m' t'(2) ord' new)
  have all': "\<forall>u\<in>set (t' # ts). \<not> paused u \<and>
        (\<exists>es new. children u = es @ [(endTime es, 0, Commit new)] \<and>
           (\<forall>e\<in>set es. payload (snd (snd e)) = None) \<and>
           0 < endTime es \<and> endTime es \<le> ?M)"
    using hall tl t'(1,3) by auto
  have "inRun P (Suc d) ?s'"
    unfolding inRun_def
    using lt all' oldc head o' by simp
  with tick show ?thesis by simp
qed

lemma inRun_tick_idle:
  assumes inv: "inRun P d s"
    and D: "cycleTime P (replicate (length (refs s)) True) < delay P"
    and np: "\<forall>t\<in>set (timelines s). \<not> playing t"
  shows "\<exists>s'. tick P s = Inr s' \<and> refs s' = refs s \<and> (\<exists>d'. inRun P d' s')"
proof -
  let ?N = "length (refs s)"
  let ?M = "cycleTime P (replicate ?N True)"
  from inv obtain i where h3: "timers s = [(i, delay P - d)]"
    unfolding inRun_def by blast
  from inv have h2: "d < delay P"
    and hall: "\<forall>t\<in>set (timelines s). \<not> paused t \<and>
        (\<exists>es new. children t = es @ [(endTime es, 0, Commit new)] \<and>
           (\<forall>e\<in>set es. payload (snd (snd e)) = None) \<and>
           0 < endTime es \<and> endTime es \<le> ?M)"
    and hord: "order s = rotate (completed s) [0..<?N]"
    unfolding inRun_def by blast+
  have allc: "\<forall>t\<in>set (timelines s). duration t \<le> playhead t"
    using np hall by (auto simp: playing_def)
  have fired0: "concat (map due (rev (timelines s))) = []"
    using np by (simp add: not_playing)
  have st: "map stepTimeline (timelines s) = timelines s"
    using np by (intro map_idI) (simp add: not_playing)
  have headc: "case timelines s of [] \<Rightarrow> True
                | t # ts \<Rightarrow> duration t \<le> playhead t \<or> (playhead t = x \<and> commits t = [y])" for x y
    using allc by (cases "timelines s") simp_all
  have dropc: "\<forall>t\<in>set (drop 1 (timelines s)). duration t \<le> playhead t"
    using allc by (auto dest: in_set_dropD)
  show ?thesis
  proof (cases "Suc d < delay P")
    case True
    let ?s' = "s\<lparr>timers := [(i, delay P - Suc d)]\<rparr>"
    have t1: "\<forall>(i, r)\<in>set (timers s). 1 < r" using h3 True by simp
    have tick: "tick P s = Inr ?s'"
      unfolding tick_no_fire [OF t1] by (simp add: fired0 st h3)
    have c: "completed ?s' = completed s" by (simp add: completed_def)
    have "inRun P (Suc d) ?s'"
      unfolding inRun_def c
      using True hall dropc headc hord by simp
    with tick show ?thesis by auto
  next
    case False
    with h2 have r: "delay P - d \<le> Suc 0" by simp
    from D have pos: "0 < delay P" by simp
    let ?s2 = "s\<lparr>timers := [(i, delay P)]\<rparr>"
    have tick: "tick P s = (case swap P ?s2 of Inl e \<Rightarrow> Inl e | Inr s' \<Rightarrow> Inr s')"
      using r by (simp add: tick_def Let_def h3 fired0 st split: sum.split)
    have p: "isPermutation (length (refs ?s2)) (order ?s2)"
      using hord by (simp add: isPermutation_def)
    have c2: "completed ?s2 = completed s" by (simp add: completed_def)
    from swap_bounded [OF p, of P]
    consider "swap P ?s2 = Inr ?s2"
      | es where "swap P ?s2 = Inr (?s2\<lparr>timelines :=
                \<lparr> children = es @ [(endTime es, 0, Commit (rotate1 (order s)))],
                  playhead = 0, paused = False \<rparr> # timelines s\<rparr>)"
          "\<forall>e\<in>set es. payload (snd (snd e)) = None" "0 < endTime es"
          "endTime es \<le> ?M"
      by auto
    then show ?thesis
    proof cases
      case 1
      have "inRun P 0 ?s2"
        unfolding inRun_def c2
        using pos hall dropc headc hord by simp
      with tick 1 show ?thesis by auto
    next
      case 2
      let ?t = "\<lparr> children = es @ [(endTime es, 0, Commit (rotate1 (order s)))],
                  playhead = 0, paused = False \<rparr>"
      let ?s3 = "?s2\<lparr>timelines := ?t # timelines s\<rparr>"
      have c: "children ?t = es @ [(endTime es, 0, Commit (rotate1 (order s)))]" by simp
      note m = made_timeline [OF c 2(2)]
      have c3: "completed ?s3 = completed s"
        using 2(3) by (simp add: completed_def m(1))
      have all3: "\<forall>u\<in>set (?t # timelines s). \<not> paused u \<and>
        (\<exists>es new. children u = es @ [(endTime es, 0, Commit new)] \<and>
           (\<forall>e\<in>set es. payload (snd (snd e)) = None) \<and>
           0 < endTime es \<and> endTime es \<le> ?M)"
        using hall 2(2,3,4) by auto
      have "inRun P 0 ?s3"
        unfolding inRun_def c3
        using pos all3 allc m(2) hord by simp
      with tick 2(1) show ?thesis by auto
    qed
  qed
qed

lemma inRun_tick:
  assumes "inRun P d s" "cycleTime P (replicate (length (refs s)) True) < delay P"
  shows "\<exists>s'. tick P s = Inr s' \<and> refs s' = refs s \<and> (\<exists>d'. inRun P d' s')"
proof (cases "\<forall>t\<in>set (timelines s). \<not> playing t")
  case True
  from inRun_tick_idle [OF assms True] show ?thesis .
next
  case False
  from assms(1) have hold: "\<forall>t\<in>set (drop 1 (timelines s)). duration t \<le> playhead t"
    unfolding inRun_def by blast
  from False obtain t ts where tl: "timelines s = t # ts"
    by (cases "timelines s") auto
  from hold tl have "\<forall>u\<in>set ts. \<not> playing u" by (auto simp: playing_def)
  with False tl have "playing t" by auto
  from inRun_tick_playing [OF assms tl this] show ?thesis by auto
qed

lemma inRun_advance:
  assumes "inRun P d s" "cycleTime P (replicate (length (refs s)) True) < delay P"
  shows "\<exists>s'. advance P n s = Inr s' \<and> refs s' = refs s \<and> (\<exists>d'. inRun P d' s')"
  using assms
proof (induction n arbitrary: d s)
  case 0
  then show ?case by auto
next
  case (Suc n)
  from inRun_tick [OF Suc.prems]
  obtain s1 d1 where s1: "tick P s = Inr s1" "refs s1 = refs s" "inRun P d1 s1"
    by blast
  from Suc.IH [OF s1(3)] Suc.prems(2) s1(2)
  obtain s' where "advance P n s1 = Inr s'" "refs s' = refs s1" "\<exists>d'. inRun P d' s'"
    by auto
  with s1(1,2) show ?case by simp
qed

lemma all_True_replicate: "\<forall>h\<in>set xs. h \<Longrightarrow> xs = replicate (length xs) True"
  by (induction xs) auto


lemma absent_handle_12000:
  "map_option snd (outcome (stateAt defaultProps [True, True, False] 12000)) = Some 2"
proof -
  have split: "(12000::nat) = 2299 + (1 + (2699 + (1 + (2349 + (1 + (2649 + (1 + 2000)))))))"
    by simp
  show ?thesis
    unfolding split stateAt_def advance_add advance_one
    by (simp add: run_simps)
qed


text \<open>
  C1, as the code has it. When the interval is longer than the longest timeline a cycle
  can have (that of a cycle in which every card has its DOM node), no cycle starts
  before the one before it has written the order. Then, for any number of cards and
  whatever DOM nodes are missing, at every time after mounting the order is the
  identity rotated left by the number of completed cycles modulo \<open>N\<close>. (A call of
  \<^verbatim>\<open>swap\<close> that finds the front card without its DOM node starts no cycle.) When there
  are at least two cards and every card has its DOM node, the cycles do complete: \<open>t\<close>
  milliseconds after mounting, \<open>t div delay\<close> cycles have completed while \<open>t mod delay\<close>
  is less than the length of a cycle, and one more from then on. With three cards,
  5000 ms and the elastic preset the order is \<open>[1, 2, 0]\<close> once the first cycle has
  completed (2350 ms after mounting) and \<open>[2, 0, 1]\<close> once the second has (7350 ms).
\<close>

theorem order_after_cycles:
  assumes "cycleTime P (replicate (length handles) True) < delay P"
  shows "\<exists>s. stateAt P handles t = Inr s \<and>
             order s = rotate (completed s mod length handles) [0..<length handles] \<and>
             (2 \<le> length handles \<and> (\<forall>h\<in>set handles. h) \<longrightarrow>
                completed s = (if t mod delay P < cycleTime P handles
                               then t div delay P else Suc (t div delay P)))"
proof -
  let ?N = "length handles"
  from inRun_mount [OF assms]
  obtain s0 where s0: "mount P handles = Inr s0" "inRun P 0 s0" "refs s0 = handles"
    by blast
  from inRun_advance [OF s0(2), of t] assms s0(3)
  obtain s d' where s: "advance P t s0 = Inr s" "refs s = handles" "inRun P d' s"
    by auto
  from s(3) s(2) have "order s = rotate (completed s) [0..<?N]"
    by (simp add: inRun_def)
  also have "\<dots> = rotate (completed s mod ?N) [0..<?N]"
    using rotate_conv_mod [of "completed s" "[0..<?N]"] by simp
  finally have ord: "order s = rotate (completed s mod ?N) [0..<?N]" .
  have prog: "completed s = (if t mod delay P < cycleTime P handles
                               then t div delay P else Suc (t div delay P))"
    if N: "2 \<le> ?N" and all: "\<forall>h\<in>set handles. h"
  proof -
    from all_True_replicate [OF all] assms have ct: "cycleTime P handles < delay P" by simp
    then have pos: "0 < delay P" by simp
    from inCycle_mount [OF N all pos] s0(1) have i0: "inCycle P 0 0 s0" by auto
    from inCycle_advance [OF i0, of t] ct N s0(3) s(1)
    have "inCycle P (t div delay P) (t mod delay P) s" by auto
    from inCycle_order [OF this] s(2) show ?thesis by simp
  qed
  from s0(1) s(1) ord prog show ?thesis
    by (auto simp: stateAt_def)
qed


theorem order_after_cycles_witness:
  "(\<exists>s. stateAt defaultProps [True, True, True] 2350 = Inr s \<and> completed s = 1 \<and>
        order s = [1, 2, 0]) \<and>
   (\<exists>s. stateAt defaultProps [True, True, True] 7350 = Inr s \<and> completed s = 2 \<and>
        order s = [2, 0, 1]) \<and>
   (\<exists>s. stateAt defaultProps [True, True, False] 12000 = Inr s \<and> completed s = 2 \<and>
        order s = [2, 0, 1])"
proof -
  have r: "replicate (length [True, True, True]) True = [True, True, True]"
    "replicate (length [True, True, False]) True = [True, True, True]"
    by simp_all
  have h: "cycleTime defaultProps (replicate (length [True, True, True]) True) < delay defaultProps"
    "cycleTime defaultProps (replicate (length [True, True, False]) True) < delay defaultProps"
    unfolding r cycleTime_three by (simp_all add: defaultProps_def)
  have d: "delay defaultProps = 5000" by (simp add: defaultProps_def)
  have u: "[0..<length [True, True, True]] = [0, 1, 2]" "[0..<length [True, True, False]] = [0, 1, 2]"
    by (simp_all add: upt_rec)
  from order_after_cycles [OF h(1), of 2350]
  have a: "\<exists>s. stateAt defaultProps [True, True, True] 2350 = Inr s \<and> completed s = 1 \<and>
        order s = [1, 2, 0]"
    unfolding d cycleTime_three u by (auto simp: numeral_2_eq_2)
  from order_after_cycles [OF h(1), of 7350]
  have b: "\<exists>s. stateAt defaultProps [True, True, True] 7350 = Inr s \<and> completed s = 2 \<and>
        order s = [2, 0, 1]"
    unfolding d cycleTime_three u by (auto simp: numeral_2_eq_2)
  from order_after_cycles [OF h(2), of 12000] absent_handle_12000
  have c: "\<exists>s. stateAt defaultProps [True, True, False] 12000 = Inr s \<and> completed s = 2 \<and>
        order s = [2, 0, 1]"
    unfolding u by (auto simp: numeral_2_eq_2 outcome_def)
  from a b c show ?thesis by blast
qed

text \<open>
  C1 as it is stated fails when cycles overlap. With three cards, the elastic preset
  (one cycle takes 2350 ms) and an interval of 2000 ms, the second call of \<open>swap\<close> reads
  the order before the first cycle has written it, so both cycles write \<open>[1, 2, 0]\<close>:
  4350 ms after mounting two cycles have completed and the order is \<open>[1, 2, 0]\<close>, not
  the identity rotated by two.
\<close>

theorem overlapping_cycles_counterexample:
  "outcome (stateAt (defaultProps\<lparr>delay := 2000\<rparr>) [True, True, True] 4350) = Some ([1, 2, 0], 2) \<and>
   outcome (stateAt (defaultProps\<lparr>delay := 2000\<rparr>) [True, True, True] 4350)
     \<noteq> Some (rotate (2 mod 3) [0, 1, 2], 2)"
proof -
  have split: "(4350::nat) = 1999 + (1 + (349 + (1 + (1649 + (1 + (349 + 1))))))" by simp
  have "outcome (stateAt (defaultProps\<lparr>delay := 2000\<rparr>) [True, True, True] 4350) = Some ([1, 2, 0], 2)"
    unfolding split stateAt_def advance_add advance_one
    by (simp add: run_simps)
  then show ?thesis by (simp add: numeral_2_eq_2)
qed

section \<open>When the order is written\<close>

lemma swap_scheduled:
  assumes "consistent s"
  shows "\<exists>s'. swap P s = Inr s' \<and> order s' = order s \<and>
           (s' = s \<or> (\<exists>es. timelines s' =
                \<lparr> children = es @ [(endTime es, 0, Commit (rotate1 (order s)))],
                  playhead = 0, paused = False \<rparr> # timelines s \<and>
                (\<forall>e\<in>set es. payload (snd (snd e)) = None) \<and> 0 < endTime es))"
proof -
  have pos: "0 < durDrop (config P)" by (simp add: config_def)
  from swap_result [OF consistent_bounds [OF assms], of P]
  consider "swap P s = Inr s"
    | front rest es where "order s = front # rest"
        "swap P s = Inr (s\<lparr>timelines :=
                \<lparr> children = es @ [(endTime es, 0, Commit (rest @ [front]))],
                  playhead = 0, paused = False \<rparr> # timelines s\<rparr>)"
        "\<forall>e\<in>set es. payload (snd (snd e)) = None"
        "durDrop (config P) \<le> endTime es"
    by blast
  then show ?thesis
  proof cases
    case 1
    then show ?thesis by simp
  next
    case 2
    have rot: "rest @ [front] = rotate1 (order s)" using 2(1) by simp
    from 2(4) pos have "0 < endTime es" by simp
    with 2(2,3) show ?thesis unfolding rot by auto
  qed
qed

text \<open>
  C3, as the code has it. \<open>swap\<close> itself never changes the order. When it schedules a
  cycle it registers the update (the front identifier moved to the end) as the last
  callback of the new timeline, at the timeline's end: ticking that timeline writes the
  update exactly when the timeline is not paused and the tick brings its playhead to the
  end, and leaves the order alone at every other playhead and while it is paused.
\<close>

theorem swap_defers_commit:
  assumes "consistent s"
  shows "\<exists>s'. swap P s = Inr s' \<and> order s' = order s \<and>
           (s' = s \<or>
            (\<exists>tln. timelines s' = tln # timelines s \<and> playhead tln = 0 \<and> 0 < duration tln \<and>
               commits tln = [rotate1 (order s)] \<and>
               (\<forall>p b ord. fold perform (due (tln\<lparr>playhead := p, paused := b\<rparr>)) ord =
                   (if \<not> b \<and> Suc p = duration tln then rotate1 (order s) else ord))))"
proof -
  from swap_scheduled [OF assms, of P]
  consider s' where "swap P s = Inr s'" "order s' = order s" "s' = s"
    | s' es where "swap P s = Inr s'" "order s' = order s"
        "timelines s' = \<lparr> children = es @ [(endTime es, 0, Commit (rotate1 (order s)))],
                  playhead = 0, paused = False \<rparr> # timelines s"
        "\<forall>e\<in>set es. payload (snd (snd e)) = None" "0 < endTime es"
    by blast
  then show ?thesis
  proof cases
    case 1
    then show ?thesis by simp
  next
    case 2
    let ?tln = "\<lparr> children = es @ [(endTime es, 0, Commit (rotate1 (order s)))],
                  playhead = 0, paused = False \<rparr>"
    have dur: "duration ?tln = endTime es" by (rule duration_scheduled)
    have com: "commits ?tln = [rotate1 (order s)]" using 2(4) by (rule commits_scheduled)
    have due: "fold perform (due (?tln\<lparr>playhead := p, paused := b\<rparr>)) ord =
                 (if \<not> b \<and> Suc p = duration ?tln then rotate1 (order s) else ord)" for p b ord
    proof -
      have c: "children (?tln\<lparr>playhead := p, paused := b\<rparr>) =
               es @ [(endTime es, 0, Commit (rotate1 (order s)))]"
        by simp
      show ?thesis
        unfolding due_scheduled [OF c 2(4)] dur
        by (auto simp: playing_def duration_def endTime_append endTime_Cons endTime_Nil)
    qed
    show ?thesis
      apply (rule exI [of _ s'])
      apply (intro conjI)
        apply (rule 2(1))
       apply (rule 2(2))
      apply (rule disjI2)
      apply (rule exI [of _ ?tln])
      using 2(3,5) dur com due by simp
  qed
qed


theorem swap_defers_commit_witness:
  "consistent (initial [True, True, True]) \<and>
   (\<exists>s'. swap defaultProps (initial [True, True, True]) = Inr s' \<and>
      order s' = order (initial [True, True, True]) \<and>
      (s' = initial [True, True, True] \<or>
       (\<exists>tln. timelines s' = tln # timelines (initial [True, True, True]) \<and>
          playhead tln = 0 \<and> 0 < duration tln \<and>
          commits tln = [rotate1 (order (initial [True, True, True]))] \<and>
          (\<forall>p b ord. fold perform (due (tln\<lparr>playhead := p, paused := b\<rparr>)) ord =
              (if \<not> b \<and> Suc p = duration tln
               then rotate1 (order (initial [True, True, True])) else ord)))))"
  using swap_defers_commit [where s = "initial [True, True, True]" and P = defaultProps,
          OF consistent_initial]
        consistent_initial [of "[True, True, True]"]
  by blast


text \<open>
  C3 as it is stated fails: after \<open>swap\<close> has scheduled the first cycle of three cards
  (the state has changed: it holds the new timeline) the order is still \<open>[0, 1, 2]\<close>, and
  when the pointer enters right after mounting and the timeline stays paused, the order
  is still \<open>[0, 1, 2]\<close> a minute later.
\<close>

theorem commit_not_synchronous_counterexample:
  "orderOf (swap defaultProps (initial [True, True, True])) = Some [0, 1, 2] \<and>
   swap defaultProps (initial [True, True, True]) \<noteq> Inr (initial [True, True, True]) \<and>
   orderOf (mounted (defaultProps\<lparr>pauseOnHover := True\<rparr>) [True, True, True]
              [MouseEnter, Elapse 60000]) = Some [0, 1, 2]"
  by (simp add: run_simps mounted_def orderOf_def pause_def clearInterval_def)

section \<open>Pause on hover\<close>

lemma advance_quiet:
  assumes "timers s = []" "\<forall>t\<in>set (timelines s). \<not> playing t"
  shows "advance P n s = Inr s"
proof -
  have "map (elapse n) (timelines s) = timelines s"
    using assms(2) by (intro map_idI) (simp add: elapse_def)
  moreover have "advance P n s = Inr (s\<lparr>timelines := map (elapse n) (timelines s),
                               timers := map (\<lambda>(i, r). (i, r - n)) (timers s)\<rparr>)"
    using assms by (intro advance_idle) simp_all
  ultimately show ?thesis using assms(1) by simp
qed

lemma pause_settled:
  assumes "settled s"
  shows "timers (pause s) = []" "\<forall>t\<in>set (timelines (pause s)). \<not> playing t"
    "order (pause s) = order s" "nextId (pause s) = nextId s"
    "map children (timelines (pause s)) = map children (timelines s)"
    "settled (pause s)"
proof -
  show "timers (pause s) = []"
    using assms by (auto simp: pause_def clearInterval_def settled_def filter_empty_conv)
  show np: "\<forall>t\<in>set (timelines (pause s)). \<not> playing t"
    using assms
    by (cases "timelines s") (auto simp: pause_def clearInterval_def settled_def playing_def)
  show "order (pause s) = order s" "nextId (pause s) = nextId s"
    by (simp_all add: pause_def clearInterval_def)
  show "map children (timelines (pause s)) = map children (timelines s)"
    by (cases "timelines s") (simp_all add: pause_def clearInterval_def)
  show "settled (pause s)"
    using np \<open>timers (pause s) = []\<close> by (auto simp: settled_def dest: in_set_dropD)
qed

lemma resume_settled:
  assumes "settled s" "timers s = []"
  shows "settled (resume P s)" "timers (resume P s) = [(nextId s, delay P)]"
    "map children (timelines (resume P s)) = map children (timelines s)"
proof -
  show "settled (resume P s)"
    using assms by (cases "timelines s") (auto simp: resume_def setInterval_def settled_def)
  show "timers (resume P s) = [(nextId s, delay P)]"
    using assms(2) by (simp add: resume_def setInterval_def)
  show "map children (timelines (resume P s)) = map children (timelines s)"
    by (cases "timelines s") (simp_all add: resume_def setInterval_def)
qed

lemma advance_no_fire:
  assumes "settled s" "\<forall>(i, r)\<in>set (timers s). n < r"
  shows "\<exists>s'. advance P n s = Inr s' \<and> settled s' \<and>
              timers s' = map (\<lambda>(i, r). (i, r - n)) (timers s) \<and>
              map children (timelines s') = map children (timelines s) \<and>
              nextId s' = nextId s"
  using assms
proof (induction n arbitrary: s)
  case 0
  have "map (\<lambda>(i, r). (i, r - 0)) (timers s) = timers s"
    by (intro map_idI) auto
  with 0 show ?case by simp
next
  case (Suc n)
  let ?s1 = "s\<lparr>order := fold perform (concat (map due (rev (timelines s)))) (order s),
                timelines := map stepTimeline (timelines s),
                timers := map (\<lambda>(i, r). (i, r - Suc 0)) (timers s)\<rparr>"
  have t1: "\<forall>(i, r)\<in>set (timers s). 1 < r" using Suc.prems(2) by auto
  have tick: "tick P s = Inr ?s1" by (rule tick_no_fire [OF t1])
  have "\<forall>t\<in>set (drop 1 (timelines s)). stepTimeline t = t"
    using Suc.prems(1) by (simp add: settled_def not_playing)
  then have dr: "drop (Suc 0) (map stepTimeline (timelines s)) = drop (Suc 0) (timelines s)"
    by (simp add: drop_map map_idI)
  have s1: "settled ?s1"
    using Suc.prems(1) unfolding settled_def by (auto simp: dr simp del: drop_map)
  have f1: "\<forall>(i, r)\<in>set (timers ?s1). n < r" using Suc.prems(2) by auto
  have c1: "map children (timelines ?s1) = map children (timelines s)"
    by (simp add: stepTimeline_def)
  have m: "map (\<lambda>(i, r). (i, r - n)) (timers ?s1) = map (\<lambda>(i, r). (i, r - Suc n)) (timers s)"
    by auto
  from Suc.IH [OF s1 f1] show ?case
    unfolding m c1 by (simp add: tick)
qed

text \<open>
  C5, as the code has it. With \<^verbatim>\<open>pauseOnHover\<close> and a settled engine (no timeline but
  the current one still playing, no timer but the one in \<^verbatim>\<open>intervalRef\<close>): after the
  pointer has entered, any stretch of time leaves the whole state, and so the order, as
  the pause left it. When the pointer leaves, the one timer armed is a new one with the
  full \<open>delay\<close>. If less than \<open>delay\<close> passes before the pointer enters again, that
  timer has not fired (it is cleared by the second pause), no timeline has been added,
  and the second pause holds the state again for any stretch of time.
\<close>

theorem pause_holds_settled_engine:
  assumes "pauseOnHover P" "settled s"
  shows "run P [MouseEnter, Elapse dt] s = Inr (pause s) \<and>
         order (pause s) = order s \<and> timers (pause s) = [] \<and>
         (\<exists>s1. run P [MouseEnter, Elapse dt, MouseLeave] s = Inr s1 \<and>
               timers s1 = [(nextId s, delay P)] \<and> settled s1) \<and>
         (dt' < delay P \<longrightarrow>
            (\<exists>s2. run P [MouseEnter, Elapse dt, MouseLeave, Elapse dt'] s = Inr s2 \<and>
                  timers s2 = [(nextId s, delay P - dt')] \<and> settled s2 \<and>
                  map children (timelines s2) = map children (timelines s) \<and>
                  run P [MouseEnter, Elapse dt''] s2 = Inr (pause s2) \<and>
                  order (pause s2) = order s2))"
proof -
  note ps = pause_settled [OF assms(2)]
  have q: "advance P dt (pause s) = Inr (pause s)"
    by (rule advance_quiet [OF ps(1,2)])
  have r1: "run P [MouseEnter, Elapse dt] s = Inr (pause s)"
    using assms(1) q by simp
  note rs = resume_settled [OF ps(6) ps(1), of P]
  have r2: "run P [MouseEnter, Elapse dt, MouseLeave] s = Inr (resume P (pause s))"
    using assms(1) q by simp
  have t2: "timers (resume P (pause s)) = [(nextId s, delay P)]"
    using rs(2) ps(4) by simp
  have part2: "\<exists>s2. run P [MouseEnter, Elapse dt, MouseLeave, Elapse dt'] s = Inr s2 \<and>
                  timers s2 = [(nextId s, delay P - dt')] \<and> settled s2 \<and>
                  map children (timelines s2) = map children (timelines s) \<and>
                  run P [MouseEnter, Elapse dt''] s2 = Inr (pause s2) \<and>
                  order (pause s2) = order s2"
    if lt: "dt' < delay P"
  proof -
    have nf: "\<forall>(i, r)\<in>set (timers (resume P (pause s))). dt' < r"
      using lt by (simp add: t2)
    from advance_no_fire [OF rs(1) nf, of P]
    obtain s2 where s2: "advance P dt' (resume P (pause s)) = Inr s2" "settled s2"
      "timers s2 = map (\<lambda>(i, r). (i, r - dt')) (timers (resume P (pause s)))"
      "map children (timelines s2) = map children (timelines (resume P (pause s)))"
      by blast
    note ps2 = pause_settled [OF s2(2)]
    have q2: "advance P dt'' (pause s2) = Inr (pause s2)"
      by (rule advance_quiet [OF ps2(1,2)])
    have a: "run P [MouseEnter, Elapse dt, MouseLeave, Elapse dt'] s = Inr s2"
      using assms(1) q s2(1) by simp
    have b: "timers s2 = [(nextId s, delay P - dt')]"
      using s2(3) by (simp add: t2)
    have c: "map children (timelines s2) = map children (timelines s)"
      using s2(4) rs(3) ps(5) by simp
    have d: "run P [MouseEnter, Elapse dt''] s2 = Inr (pause s2)"
      using assms(1) q2 by simp
    from a b s2(2) c d ps2(3) show ?thesis by blast
  qed
  from r1 ps(3) ps(1) r2 t2 rs(1) part2 show ?thesis by blast
qed


lemma mounted_hover_1000:
  "\<exists>s. mounted (defaultProps\<lparr>pauseOnHover := True\<rparr>) [True, True, True] [Elapse 1000] = Inr s \<and>
       settled s \<and> order s = [0, 1, 2] \<and> nextId s = 2"
  by (simp add: run_simps mounted_def settled_def)

theorem pause_holds_settled_engine_witness:
  "\<exists>s. mounted (defaultProps\<lparr>pauseOnHover := True\<rparr>) [True, True, True] [Elapse 1000] = Inr s \<and>
       settled s \<and>
       run (defaultProps\<lparr>pauseOnHover := True\<rparr>) [MouseEnter, Elapse 60000] s = Inr (pause s) \<and>
       order (pause s) = [0, 1, 2] \<and>
       (\<exists>s2. run (defaultProps\<lparr>pauseOnHover := True\<rparr>)
               [MouseEnter, Elapse 60000, MouseLeave, Elapse 4999] s = Inr s2 \<and>
             timers s2 = [(2, 1)] \<and>
             map children (timelines s2) = map children (timelines s) \<and>
             run (defaultProps\<lparr>pauseOnHover := True\<rparr>) [MouseEnter, Elapse 60000] s2
               = Inr (pause s2))"
proof -
  let ?P = "defaultProps\<lparr>pauseOnHover := True\<rparr>"
  from mounted_hover_1000
  obtain s where s: "mounted ?P [True, True, True] [Elapse 1000] = Inr s" "settled s"
    "order s = [0, 1, 2]" "nextId s = 2"
    by blast
  have p: "pauseOnHover ?P" by simp
  have d: "delay ?P = 5000" "(4999::nat) < 5000" by (simp_all add: defaultProps_def)
  from pause_holds_settled_engine [OF p s(2), of 60000 4999 60000] s
  show ?thesis unfolding d by (intro exI [of _ s]) auto
qed


text \<open>
  C5 as it is stated fails when cycles overlap. With an interval of 2000 ms the second
  cycle starts while the first timeline is still playing; a pause 2100 ms after mounting
  pauses the second timeline only, and 250 ms later the first one has written the order
  while the pointer is still inside.
\<close>

theorem pause_overlapping_counterexample:
  "orderOf (mounted (defaultProps\<lparr>delay := 2000, pauseOnHover := True\<rparr>) [True, True, True]
              [Elapse 2100, MouseEnter]) = Some [0, 1, 2] \<and>
   orderOf (mounted (defaultProps\<lparr>delay := 2000, pauseOnHover := True\<rparr>) [True, True, True]
              [Elapse 2100, MouseEnter, Elapse 250]) = Some [1, 2, 0]"
proof -
  have split: "(2100::nat) = 1999 + (1 + 100)" "(250::nat) = 249 + 1" by simp_all
  show ?thesis
    unfolding mounted_def run.simps handle.simps split advance_add advance_one
    by (simp add: run_simps orderOf_def pause_def clearInterval_def)
qed

section \<open>Clicks\<close>

lemma displayPosition_upt:
  "m \<le> i \<Longrightarrow> i < n \<Longrightarrow> displayPosition i [m..<n] = Some (i - m)"
proof (induction "i - m" arbitrary: m)
  case 0
  then have "m = i" by simp
  with 0 show ?case by (simp add: upt_rec [of i])
next
  case (Suc k)
  then have lt: "m < i" "m < n" by simp_all
  from Suc have "displayPosition i [Suc m..<n] = Some (i - Suc m)" by simp
  with lt show ?case by (simp add: upt_rec [of m])
qed

text \<open>
  C6, as the code has it. A click on the rendered element \<open>i\<close> calls \<^verbatim>\<open>onCardClick\<close>
  with \<open>i\<close>, the card's index among the children, and with nothing else; the order is
  not read. In the identity order, with which the component starts, that index is the
  card's display position.
\<close>

theorem click_passes_card_identifier:
  assumes "i < length childArr" "childArr ! i = Element h"
  shows "rendered childArr True ! i = Some (onClick h True i) \<and>
         OnCardClick i \<in> set (onClick h True i) \<and>
         (\<forall>j. OnCardClick j \<in> set (onClick h True i) \<longrightarrow> j = i) \<and>
         displayPosition i [0..<length childArr] = Some i"
  using assms by (simp add: rendered_def onClick_def displayPosition_upt)


theorem click_passes_card_identifier_witness:
  "rendered [Element False, Element True, Element False] True ! 1 = Some (onClick True True 1) \<and>
   OnCardClick 1 \<in> set (onClick True True 1) \<and>
   OnCardClick 0 \<notin> set (onClick True True 1) \<and>
   displayPosition 1 [0..<length [Element False, Element True, Element False]] = Some 1"
proof -
  have a: "1 < length [Element False, Element True, Element False]"
    "[Element False, Element True, Element False] ! 1 = Element True"
    by simp_all
  from click_passes_card_identifier [OF a] show ?thesis by auto
qed


text \<open>
  C6 as it is stated fails once the order has rotated: after the first cycle of three
  cards the order is \<open>[1, 2, 0]\<close>; a click on card 1 calls \<^verbatim>\<open>onCardClick(1)\<close>, while
  card 1 stands at display position 0.
\<close>

theorem click_position_counterexample:
  "orderOf (stateAt defaultProps [True, True, True] 2350) = Some [1, 2, 0] \<and>
   rendered [Element False, Element False, Element False] True ! 1 = Some [OnCardClick 1] \<and>
   displayPosition 1 [1, 2, 0] = Some 0"
proof -
  have split: "(2350::nat) = 2349 + 1" by simp
  have "orderOf (stateAt defaultProps [True, True, True] 2350) = Some [1, 2, 0]"
    unfolding split stateAt_def advance_add advance_one
    by (simp add: run_simps orderOf_def)
  then show ?thesis by (simp add: rendered_def onClick_def upt_rec)
qed

end
